theory Spec2Isabelle
  imports Main
begin

section \<open>Roulette simulator (roulette.py): data model\<close>

text \<open>
  The exceptions the modelled code can raise. \<open>InvalidBet\<close> is the repository's own
  exception; the others are Python's built-in ones, raised by the interpreter on an
  ill-typed operation, a missing attribute, an out-of-range index or an empty sample.
\<close>

datatype error = InvalidBet | TypeError | AttributeError | IndexError | ValueError

text \<open>
  Class \<open>Outcome\<close> and its subclass \<open>PrisonOutcome\<close>: the same two fields, the subclass is
  only a tag (\<open>isinstance\<close> tests it). Equality and hash of the source go by name only.
\<close>

datatype Outcome = Outcome string int | PrisonOutcome string int

fun name :: "Outcome \<Rightarrow> string" where
  "name (Outcome n d) = n"
| "name (PrisonOutcome n d) = n"

fun odds :: "Outcome \<Rightarrow> int" where
  "odds (Outcome n d) = d"
| "odds (PrisonOutcome n d) = d"

fun is_prison :: "Outcome \<Rightarrow> bool" where
  "is_prison (Outcome n d) = False"
| "is_prison (PrisonOutcome n d) = True"

text \<open>\<open>Outcome.__eq__\<close>: two outcomes are equal when their names are.\<close>

definition outcome_eq :: "Outcome \<Rightarrow> Outcome \<Rightarrow> bool" where
  "outcome_eq a b = (name a = name b)"

text \<open>
  A \<open>Bin\<close> is a frozenset of outcomes, a Python set of outcomes likewise: no two members
  are equal, that is, no two members share a name. Both are kept as lists without a
  repeated name; the order of the list has no meaning. \<open>contains\<close> is Python's \<open>in\<close>,
  \<open>set_add\<close> is the union with a one-element set (and \<open>set.add\<close>): a member of the same
  name stays and the new object is dropped.
\<close>

type_synonym Bin = "Outcome list"

definition contains :: "Outcome list \<Rightarrow> Outcome \<Rightarrow> bool" where
  "contains b oc = list_ex (\<lambda>x. outcome_eq x oc) b"

definition set_add :: "Outcome list \<Rightarrow> Outcome \<Rightarrow> Outcome list" where
  "set_add b oc = (if contains b oc then b else b @ [oc])"

text \<open>
  \<open>random.Random\<close> is Python's library generator, not code of the repository. Its state
  is modelled by the sequence of raw values it is going to produce and the position
  reached in it; \<open>randint a b\<close> maps the next raw value into \<open>[a, b]\<close>.
\<close>

record rng =
  draws :: "nat \<Rightarrow> nat"
  pos :: nat

definition randint :: "nat \<Rightarrow> nat \<Rightarrow> rng \<Rightarrow> nat \<times> rng" where
  "randint a b r = (a + draws r (pos r) mod (b - a + 1), r\<lparr>pos := Suc (pos r)\<rparr>)"

record Wheel =
  bins :: "Bin list"
  wrng :: rng
  all_outcomes :: "Outcome list"

subsection \<open>Sequencing of calls that may raise\<close>

definition and_then :: "error + 'a \<Rightarrow> ('a \<Rightarrow> error + 'b) \<Rightarrow> error + 'b" where
  "and_then m f = (case m of Inl e \<Rightarrow> Inl e | Inr x \<Rightarrow> f x)"

text \<open>A \<open>for\<close> loop over a list whose body may raise: the first exception ends the loop.\<close>

fun for_each :: "'a list \<Rightarrow> ('a \<Rightarrow> 's \<Rightarrow> error + 's) \<Rightarrow> 's \<Rightarrow> error + 's" where
  "for_each [] f s = Inr s"
| "for_each (x # xs) f s = (case f x s of Inl e \<Rightarrow> Inl e | Inr s' \<Rightarrow> for_each xs f s')"

subsection \<open>Decimal formatting of the bin numbers\<close>

definition digit :: "nat \<Rightarrow> char" where
  "digit d = ''0123456789'' ! (d mod 10)"

fun str :: "nat \<Rightarrow> string" where
  "str n = (if n < 10 then [digit n] else str (n div 10) @ [digit n])"

declare str.simps [simp del]

text \<open>\<open>"{}-{}-...".format(...)\<close>: the numbers joined by dashes.\<close>

fun dashed :: "nat list \<Rightarrow> string" where
  "dashed [] = []"
| "dashed [n] = str n"
| "dashed (n # ns) = str n @ ''-'' @ dashed ns"

section \<open>Wheel and the bin builders\<close>

text \<open>
  \<open>Wheel.add_outcome\<close>: registers the outcome unless one of that name is registered, then
  replaces the bin by its union with the outcome. An index outside the list raises
  IndexError. The builders pass indices taken from \<open>range\<close>, never negative ones.
\<close>

definition add_outcome :: "nat \<Rightarrow> Outcome \<Rightarrow> Wheel \<Rightarrow> error + Wheel" where
  "add_outcome bin outcome w =
     (let w1 = (if \<not> contains (all_outcomes w) outcome
                then w\<lparr>all_outcomes := all_outcomes w @ [outcome]\<rparr> else w)
      in if bin < length (bins w1)
         then Inr (w1\<lparr>bins := (bins w1)[bin := set_add (bins w1 ! bin) outcome]\<rparr>)
         else Inl IndexError)"

definition get_outcome :: "Wheel \<Rightarrow> string \<Rightarrow> Outcome option" where
  "get_outcome w nm =
     (case filter (\<lambda>oc. name oc = nm) (all_outcomes w) of
        [] \<Rightarrow> None
      | oc # _ \<Rightarrow> Some oc)"

text \<open>\<open>Wheel.next\<close>: draws an index in \<open>[0, 37]\<close> and returns that bin.\<close>

definition wheel_next :: "Wheel \<Rightarrow> (error + Bin) \<times> Wheel" where
  "wheel_next w =
     (let (i, r) = randint 0 37 (wrng w); w' = w\<lparr>wrng := r\<rparr>
      in if i < length (bins w') then (Inr (bins w' ! i), w') else (Inl IndexError, w'))"

text \<open>The two builder classes; \<open>EuroBinBuilder\<close> overrides three methods of \<open>BinBuilder\<close>.\<close>

datatype builder = BinBuilder | EuroBinBuilder

definition add_straight_bets :: "builder \<Rightarrow> Wheel \<Rightarrow> error + Wheel" where
  "add_straight_bets bb w =
     (case bb of
        BinBuilder \<Rightarrow>
          and_then (for_each [0..<37] (\<lambda>n. add_outcome n (Outcome (str n) 35)) w)
            (add_outcome 37 (Outcome ''00'' 35))
      | EuroBinBuilder \<Rightarrow>
          and_then
            (and_then (for_each [1..<37] (\<lambda>n. add_outcome n (Outcome (str n) 35)) w)
               (add_outcome 37 (Outcome ''00'' 35)))
            (add_outcome 0 (PrisonOutcome ''0'' 35)))"

definition add_left_right_pair :: "Outcome \<Rightarrow> nat \<Rightarrow> Wheel \<Rightarrow> error + Wheel" where
  "add_left_right_pair outcome idx w =
     and_then (add_outcome idx outcome w) (add_outcome (idx + 1) outcome)"

definition add_top_down_pair :: "Outcome \<Rightarrow> nat \<Rightarrow> Wheel \<Rightarrow> error + Wheel" where
  "add_top_down_pair outcome idx w =
     and_then (add_outcome idx outcome w) (add_outcome (idx + 3) outcome)"

definition add_split_bets :: "Wheel \<Rightarrow> error + Wheel" where
  "add_split_bets w =
     and_then
       (for_each [0..<12] (\<lambda>r. for_each [1..<3] (\<lambda>i.
          let n = 3 * r + i in add_left_right_pair (Outcome (dashed [n, n + 1]) 17) n)) w)
       (for_each [1..<34] (\<lambda>n. add_top_down_pair (Outcome (dashed [n, n + 3]) 17) n))"

definition add_street_bets :: "Wheel \<Rightarrow> error + Wheel" where
  "add_street_bets w =
     for_each [0..<12] (\<lambda>r.
       let n = 3 * r + 1; street_outcome = Outcome (dashed [n, n + 1, n + 2]) 11
       in for_each [0..<3] (\<lambda>i. add_outcome (n + i) street_outcome)) w"

definition add_corner_block :: "nat \<Rightarrow> Wheel \<Rightarrow> error + Wheel" where
  "add_corner_block idx w =
     (let outcome = Outcome (dashed (map (\<lambda>i. idx + i) [0, 1, 3, 4])) 8
      in for_each [0, 1, 3, 4] (\<lambda>i. add_outcome (idx + i) outcome) w)"

definition add_corner_bets :: "Wheel \<Rightarrow> error + Wheel" where
  "add_corner_bets w =
     for_each [0..<11] (\<lambda>r w'.
       and_then (add_corner_block (3 * r + 1) w') (add_corner_block (3 * r + 2))) w"

definition add_line_bets :: "Wheel \<Rightarrow> error + Wheel" where
  "add_line_bets w =
     for_each [0..<11] (\<lambda>r.
       let n = 3 * r + 1; idxs = map (\<lambda>i. n + i) [0..<6];
           line_outcome = Outcome (dashed idxs) 5
       in for_each idxs (\<lambda>idx. add_outcome idx line_outcome)) w"

definition add_dozen_bets :: "Wheel \<Rightarrow> error + Wheel" where
  "add_dozen_bets w =
     for_each [0..<3] (\<lambda>d.
       let dozen_outcome = Outcome (''dozen('' @ str (d + 1) @ '')'') 2
       in for_each [0..<12] (\<lambda>m. add_outcome (12 * d + m + 1) dozen_outcome)) w"

definition add_column_bets :: "Wheel \<Rightarrow> error + Wheel" where
  "add_column_bets w =
     for_each [0..<3] (\<lambda>c.
       let col_outcome = Outcome (''column('' @ str (c + 1) @ '')'') 2
       in for_each [0..<12] (\<lambda>r. add_outcome (3 * r + c + 1) col_outcome)) w"

definition red_bins :: "nat list" where
  "red_bins = [1,3,5,7,9,12,14,16,18,19,21,23,25,27,30,32,34,36]"

definition add_even_money_bets :: "Wheel \<Rightarrow> error + Wheel" where
  "add_even_money_bets w =
     (let red = Outcome ''red'' 1; black = Outcome ''black'' 1;
          even = Outcome ''even'' 1; odd = Outcome ''odd'' 1;
          high = Outcome ''high'' 1; low = Outcome ''low'' 1
      in for_each [1..<37] (\<lambda>n w0.
           and_then
             (and_then
                (if n \<ge> 1 \<and> n < 19 then add_outcome n low w0 else add_outcome n high w0)
                (\<lambda>w1. if n mod 2 = 0 then add_outcome n even w1 else add_outcome n odd w1))
             (\<lambda>w2. if n \<in> set red_bins then add_outcome n red w2
                    else add_outcome n black w2)) w)"

definition add_five_bets :: "builder \<Rightarrow> Wheel \<Rightarrow> error + Wheel" where
  "add_five_bets bb w =
     (case bb of
        BinBuilder \<Rightarrow>
          (let five_bet = Outcome ''00-0-1-2-3'' 6
           in and_then (for_each [0..<4] (\<lambda>i. add_outcome i five_bet) w)
                (add_outcome 37 five_bet))
      | EuroBinBuilder \<Rightarrow> Inr w)"

definition add_four_bets :: "Wheel \<Rightarrow> error + Wheel" where
  "add_four_bets w =
     (let four_bet = Outcome ''0-1-2-3'' 6
      in for_each [0..<4] (\<lambda>i. add_outcome i four_bet) w)"

definition base_build_bins :: "builder \<Rightarrow> Wheel \<Rightarrow> error + Wheel" where
  "base_build_bins bb w =
     and_then (and_then (and_then (and_then (and_then (and_then (and_then (and_then
       (add_straight_bets bb w)
       add_split_bets) add_street_bets) add_corner_bets) add_line_bets)
       add_dozen_bets) add_column_bets) add_even_money_bets) (add_five_bets bb)"

definition build_bins :: "builder \<Rightarrow> Wheel \<Rightarrow> error + Wheel" where
  "build_bins bb w =
     (case bb of
        BinBuilder \<Rightarrow> base_build_bins bb w
      | EuroBinBuilder \<Rightarrow> and_then (base_build_bins bb w) add_four_bets)"

text \<open>
  \<open>Wheel.__init__(seed, rules)\<close>. \<open>random.Random()\<close> starts from the operating system's
  entropy: \<open>fresh\<close> is the state it gets at this construction. \<open>seeded s\<close> is the state
  the library's \<open>seed(s)\<close> puts the generator in. \<open>if seed:\<close> is Python's truth test:
  \<open>None\<close> and \<open>0\<close> are both false.
\<close>

definition truthy :: "int option \<Rightarrow> bool" where
  "truthy v = (case v of None \<Rightarrow> False | Some n \<Rightarrow> n \<noteq> 0)"

definition Wheel_init :: "(int \<Rightarrow> rng) \<Rightarrow> rng \<Rightarrow> int option \<Rightarrow> string \<Rightarrow> error + Wheel" where
  "Wheel_init seeded fresh seed rules =
     (let w = \<lparr>bins = replicate 38 [],
               wrng = (if truthy seed then seeded (the seed) else fresh),
               all_outcomes = []\<rparr>;
          bb = (if rules = ''american'' then Some BinBuilder
                else if rules = ''european'' then Some EuroBinBuilder
                else None)
      in case bb of Some b \<Rightarrow> build_bins b w | None \<Rightarrow> Inr w)"

section \<open>Bets and the table\<close>

text \<open>
  \<open>Bet.outcome\<close> is whatever \<open>Wheel.get_outcome\<close> returned to the player, so it may be
  \<open>None\<close>. The payouts read \<open>outcome.odds\<close>, which raises AttributeError on \<open>None\<close>.
\<close>

record Bet =
  amount :: int
  outcome :: "Outcome option"

definition win_amount :: "Bet \<Rightarrow> error + int" where
  "win_amount b =
     (case outcome b of None \<Rightarrow> Inl AttributeError | Some oc \<Rightarrow> Inr (amount b * odds oc))"

definition lose_amount :: "Bet \<Rightarrow> error + int" where
  "lose_amount b = win_amount b"

record Table =
  limit :: int
  bets :: "Bet list"
  wheel :: Wheel

definition Table_init :: "int \<Rightarrow> Wheel \<Rightarrow> Table" where
  "Table_init lim w = \<lparr>limit = lim, bets = [], wheel = w\<rparr>"

definition is_valid :: "Table \<Rightarrow> bool" where
  "is_valid t = (if sum_list (map amount (bets t)) > limit t then False else True)"

text \<open>
  \<open>Table.place_bet\<close> appends first and validates afterwards. The table is a shared object:
  what the method did to it before raising is still there for whoever catches the
  exception, so the table comes back with the result in both cases.
\<close>

definition place_bet :: "Bet \<Rightarrow> Table \<Rightarrow> (error + unit) \<times> Table" where
  "place_bet b t =
     (let t' = t\<lparr>bets := bets t @ [b]\<rparr>
      in if \<not> is_valid t' then (Inl InvalidBet, t') else (Inr (), t'))"

definition clear_bets :: "Table \<Rightarrow> Table" where
  "clear_bets t = t\<lparr>bets := []\<rparr>"

section \<open>Players\<close>

text \<open>
  The four concrete subclasses of \<open>Player\<close> as a tag; the record holds the attributes of
  all of them (\<open>multiplier\<close> is Martingale's, \<open>red_count\<close> and \<open>red\<close> are SevenReds's,
  \<open>prng\<close> is PlayerRandom's generator). \<open>multiplier\<close> starts at 0 and is only ever reset
  to 0 or incremented, hence a natural number.
\<close>

datatype kind = Passenger57 | Martingale | SevenReds | PlayerRandom

record Player =
  kind :: kind
  stake :: "int option"
  rounds :: "int option"
  black :: "Outcome option"
  multiplier :: nat
  red_count :: int
  red :: "Outcome option"
  prng :: rng

text \<open>
  The constructors, as \<open>Simulator.session\<close> calls them on the existing object:
  \<open>self.player.__init__(self.player.table)\<close>, so PlayerRandom gets no seed there and
  its generator is a new \<open>random.Random()\<close> (state \<open>fresh\<close>).
\<close>

definition Player_init :: "rng \<Rightarrow> Table \<Rightarrow> Player \<Rightarrow> Player" where
  "Player_init fresh t p =
     (let p0 = p\<lparr>stake := None, rounds := None\<rparr>
      in case kind p of
           Passenger57 \<Rightarrow> p0\<lparr>black := get_outcome (wheel t) ''black''\<rparr>
         | Martingale \<Rightarrow> p0\<lparr>multiplier := 0, black := get_outcome (wheel t) ''black''\<rparr>
         | SevenReds \<Rightarrow>
             p0\<lparr>multiplier := 0, black := get_outcome (wheel t) ''black'',
                red_count := 0, red := get_outcome (wheel t) ''red''\<rparr>
         | PlayerRandom \<Rightarrow> p0\<lparr>prng := fresh\<rparr>)"

definition blank :: "kind \<Rightarrow> Player" where
  "blank k = \<lparr>kind = k, stake = None, rounds = None, black = None, multiplier = 0,
              red_count = 0, red = None, prng = \<lparr>draws = (\<lambda>_. 0), pos = 0\<rparr>\<rparr>"

text \<open>
  \<open>PlayerBuilder.get_player(mode, seed)\<close>; only \<open>PlayerRandom\<close> takes the seed, with the
  same truth test as the wheel.
\<close>

definition get_player ::
  "(int \<Rightarrow> rng) \<Rightarrow> rng \<Rightarrow> Table \<Rightarrow> string \<Rightarrow> int option \<Rightarrow> error + Player" where
  "get_player seeded fresh t mode seed =
     (if mode = ''martingale'' then Inr (Player_init fresh t (blank Martingale))
      else if mode = ''sevenreds'' then Inr (Player_init fresh t (blank SevenReds))
      else if mode = ''passenger57'' then Inr (Player_init fresh t (blank Passenger57))
      else if mode = ''random''
        then Inr (Player_init (if truthy seed then seeded (the seed) else fresh) t
                    (blank PlayerRandom))
      else Inl ValueError)"

definition set_stake :: "int \<Rightarrow> Player \<Rightarrow> Player" where
  "set_stake s p = p\<lparr>stake := Some s\<rparr>"

definition set_rounds :: "int \<Rightarrow> Player \<Rightarrow> Player" where
  "set_rounds r p = p\<lparr>rounds := Some r\<rparr>"

text \<open>\<open>playing\<close>: Passenger57 overrides it by \<open>return True\<close>.\<close>

definition Player_playing :: "Player \<Rightarrow> bool" where
  "Player_playing p =
     (case (rounds p, stake p) of
        (Some r, Some s) \<Rightarrow> if r > 0 \<and> s > 0 then True else False
      | _ \<Rightarrow> False)"

definition playing :: "Player \<Rightarrow> bool" where
  "playing p = (case kind p of Passenger57 \<Rightarrow> True | _ \<Rightarrow> Player_playing p)"

text \<open>
  Python's \<open>x in winning_outcomes\<close> for a bet's outcome. \<open>None\<close> is hashed like any object
  and is no member of a bin (its hash is unrelated to the hashes of the names).
\<close>

definition member_of :: "Outcome option \<Rightarrow> Bin \<Rightarrow> bool" where
  "member_of x ws = (case x of None \<Rightarrow> False | Some oc \<Rightarrow> contains ws oc)"

subsection \<open>Placing bets\<close>

definition Passenger57_place_bets :: "Table \<Rightarrow> Player \<Rightarrow> (error + unit) \<times> Table \<times> Player" where
  "Passenger57_place_bets t p =
     (let (r, t') = place_bet \<lparr>amount = 10, outcome = black p\<rparr> t in (r, t', p))"

text \<open>
  \<open>Martingale.place_bets\<close>. The comparison \<open>amount > self.stake\<close> raises TypeError while
  the stake is still \<open>None\<close>, before anything is changed.
\<close>

definition Martingale_place_bets :: "Table \<Rightarrow> Player \<Rightarrow> (error + unit) \<times> Table \<times> Player" where
  "Martingale_place_bets t p =
     (let a0 = 2 ^ multiplier p;
          a1 = (if a0 > limit t then limit t else a0)
      in case stake p of
           None \<Rightarrow> (Inl TypeError, t, p)
         | Some s \<Rightarrow>
             (let a2 = (if a1 > s then s else a1);
                  p' = p\<lparr>stake := Some (s - a2)\<rparr>;
                  (r, t') = place_bet \<lparr>amount = a2, outcome = black p'\<rparr> t
              in (r, t', p')))"

definition SevenReds_place_bets :: "Table \<Rightarrow> Player \<Rightarrow> (error + unit) \<times> Table \<times> Player" where
  "SevenReds_place_bets t p =
     (let m = red_count p - 7
      in if m \<ge> 0 then Martingale_place_bets t p else (Inr (), t, p))"

text \<open>
  \<open>rng.sample(population, 1)[0]\<close> of the library: ValueError on an empty population,
  else one member, chosen by the generator. The population is the wheel's set of
  outcomes, which \<open>sample\<close> accepts up to Python 3.10; the member comes from the list that
  represents the set.
\<close>

definition sample1 :: "rng \<Rightarrow> Outcome list \<Rightarrow> (error + Outcome) \<times> rng" where
  "sample1 r xs =
     (if xs = [] then (Inl ValueError, r)
      else (let (i, r') = randint 0 (length xs - 1) r in (Inr (xs ! i), r')))"

text \<open>
  \<open>PlayerRandom.place_bets\<close> bets the whole stake and does not deduct it. \<open>Game.cycle\<close>
  calls it only for a player who is playing, whose stake is a number. Called with the
  stake still \<open>None\<close>, the source appends a bet whose amount is \<open>None\<close> and the sum over
  the amounts raises TypeError, the bet staying on the table; the bets of the model carry
  integer amounts, so on that one path, which no round reaches, the model returns the
  TypeError with the table as it was.
\<close>

definition PlayerRandom_place_bets :: "Table \<Rightarrow> Player \<Rightarrow> (error + unit) \<times> Table \<times> Player" where
  "PlayerRandom_place_bets t p =
     (let (ro, r') = sample1 (prng p) (all_outcomes (wheel t)); p' = p\<lparr>prng := r'\<rparr>
      in case ro of
           Inl e \<Rightarrow> (Inl e, t, p')
         | Inr oc \<Rightarrow>
             (case stake p' of
                None \<Rightarrow> (Inl TypeError, t, p')
              | Some s \<Rightarrow>
                  (let (r, t') = place_bet \<lparr>amount = s, outcome = Some oc\<rparr> t
                   in (r, t', p'))))"

definition place_bets :: "Table \<Rightarrow> Player \<Rightarrow> (error + unit) \<times> Table \<times> Player" where
  "place_bets t p =
     (case kind p of
        Passenger57 \<Rightarrow> Passenger57_place_bets t p
      | Martingale \<Rightarrow> Martingale_place_bets t p
      | SevenReds \<Rightarrow> SevenReds_place_bets t p
      | PlayerRandom \<Rightarrow> PlayerRandom_place_bets t p)"

subsection \<open>Win, lose and the end of a round\<close>

definition Player_win :: "Bet \<Rightarrow> error + int" where
  "Player_win b = win_amount b"

text \<open>
  \<open>Player.lose\<close>: on a PrisonOutcome the source evaluates \<open>bet.lose_amount * 0.5\<close>, the
  method object itself times a float, which raises TypeError.
\<close>

definition Player_lose :: "Bet \<Rightarrow> error + int" where
  "Player_lose b =
     (case outcome b of
        Some (PrisonOutcome n d) \<Rightarrow> Inl TypeError
      | _ \<Rightarrow> Inr 0)"

definition Martingale_win :: "Bet \<Rightarrow> Player \<Rightarrow> (error + int) \<times> Player" where
  "Martingale_win b p =
     (let p1 = p\<lparr>multiplier := 0\<rparr>
      in case stake p1 of
           None \<Rightarrow> (Inl TypeError, p1)
         | Some s \<Rightarrow> (Player_win b, p1\<lparr>stake := Some (s + amount b)\<rparr>))"

definition Martingale_lose :: "Bet \<Rightarrow> Player \<Rightarrow> (error + int) \<times> Player" where
  "Martingale_lose b p = (Player_lose b, p\<lparr>multiplier := multiplier p + 1\<rparr>)"

definition win :: "Bet \<Rightarrow> Player \<Rightarrow> (error + int) \<times> Player" where
  "win b p =
     (case kind p of
        Martingale \<Rightarrow> Martingale_win b p
      | SevenReds \<Rightarrow> Martingale_win b p
      | _ \<Rightarrow> (Player_win b, p))"

definition lose :: "Bet \<Rightarrow> Player \<Rightarrow> (error + int) \<times> Player" where
  "lose b p =
     (case kind p of
        Martingale \<Rightarrow> Martingale_lose b p
      | SevenReds \<Rightarrow> Martingale_lose b p
      | _ \<Rightarrow> (Player_lose b, p))"

text \<open>\<open>Player.winners\<close>: \<open>if self.rounds:\<close> is false for \<open>None\<close> and for 0.\<close>

definition Player_winners :: "Player \<Rightarrow> Player" where
  "Player_winners p = (if truthy (rounds p) then p\<lparr>rounds := Some (the (rounds p) - 1)\<rparr> else p)"

definition winners :: "Bin \<Rightarrow> Player \<Rightarrow> Player" where
  "winners ws p =
     (case kind p of
        SevenReds \<Rightarrow>
          (let p1 = Player_winners p
           in if member_of (red p1) ws then p1\<lparr>red_count := red_count p1 + 1\<rparr>
              else p1\<lparr>red_count := 0\<rparr>)
      | _ \<Rightarrow> Player_winners p)"

section \<open>Game and Simulator\<close>

text \<open>The loop of \<open>Game.cycle\<close> over the bets on the table, collecting the returned values.\<close>

fun resolve :: "Bin \<Rightarrow> Bet list \<Rightarrow> int list \<Rightarrow> Player \<Rightarrow> (error + int list) \<times> Player" where
  "resolve ws [] outs p = (Inr outs, p)"
| "resolve ws (b # bs) outs p =
     (let (r, p') = (if member_of (outcome b) ws then win b p else lose b p)
      in case r of
           Inl e \<Rightarrow> (Inl e, p')
         | Inr v \<Rightarrow> resolve ws bs (outs @ [v]) p')"

text \<open>
  \<open>Game.cycle\<close>: returns the sum of the values and the number of bets. An exception
  leaves the objects as they were when it was raised (the table is not cleared then).
\<close>

definition Game_cycle :: "Table \<Rightarrow> Player \<Rightarrow> (error + int \<times> nat) \<times> Table \<times> Player" where
  "Game_cycle t p =
     (let (r1, t1, p1) = (if playing p then place_bets t p else (Inr (), t, p))
      in case r1 of
           Inl e \<Rightarrow> (Inl e, t1, p1)
         | Inr _ \<Rightarrow>
             (let (rb, w2) = wheel_next (wheel t1); t2 = t1\<lparr>wheel := w2\<rparr>
              in case rb of
                   Inl e \<Rightarrow> (Inl e, t2, p1)
                 | Inr winning_outcomes \<Rightarrow>
                     (let p2 = winners winning_outcomes p1;
                          (ro, p3) = resolve winning_outcomes (bets t2) [] p2
                      in case ro of
                           Inl e \<Rightarrow> (Inl e, t2, p3)
                         | Inr outs \<Rightarrow>
                             (Inr (sum_list outs, length outs), clear_bets t2, p3))))"

record Simulator =
  init_duration :: int
  init_stake :: int
  samples :: nat
  durations :: "nat list"
  maxima :: "int option list"
  sim_player :: Player
  sim_table :: Table

text \<open>
  \<open>Simulator.__init__\<close>. The game holds nothing but the table, and the player's table is
  the game's table, as \<open>SimulationBuilder\<close> sets them up: \<open>sim_table\<close> is that one object.
\<close>

definition Simulator_init :: "Table \<Rightarrow> Player \<Rightarrow> Simulator" where
  "Simulator_init t p =
     \<lparr>init_duration = 250, init_stake = 100, samples = 50, durations = [], maxima = [],
      sim_player = p, sim_table = t\<rparr>"

text \<open>
  The \<open>while\<close> loop of \<open>Simulator.session\<close>. It ends when the player stops playing or a
  cycle raises; \<open>None\<close> is a loop that runs forever. The pair returned by \<open>Game.cycle\<close>
  is not used.
\<close>

partial_function (option) session_loop ::
  "Table \<Rightarrow> Player \<Rightarrow> int option list \<Rightarrow> nat
     \<Rightarrow> ((error + int option list \<times> nat) \<times> Table \<times> Player) option" where
  "session_loop t p stakes duration =
     (if playing p
      then (case Game_cycle t p of
              (Inl e, t', p') \<Rightarrow> Some (Inl e, t', p')
            | (Inr _, t', p') \<Rightarrow> session_loop t' p' (stakes @ [stake p']) (duration + 1))
      else Some (Inr (stakes, duration), t, p))"

text \<open>
  Python's \<open>max\<close> on the stake history: ValueError on an empty list, TypeError when a
  \<open>None\<close> has to be compared with another entry.
\<close>

definition max_stakes :: "int option list \<Rightarrow> error + int option" where
  "max_stakes xs =
     (case xs of
        [] \<Rightarrow> Inl ValueError
      | [x] \<Rightarrow> Inr x
      | x # ys \<Rightarrow> if None \<in> set xs then Inl TypeError
                  else Inr (Some (fold max (map the ys) (the x))))"

definition session :: "rng \<Rightarrow> Simulator \<Rightarrow> ((error + int option list) \<times> Simulator) option" where
  "session fresh sim =
     (let p0 = Player_init fresh (sim_table sim) (sim_player sim);
          p1 = set_rounds (init_duration sim) p0;
          p2 = set_stake (init_stake sim) p1
      in case session_loop (sim_table sim) p2 [stake p2] 0 of
           None \<Rightarrow> None
         | Some (Inl e, t, p) \<Rightarrow> Some (Inl e, sim\<lparr>sim_player := p, sim_table := t\<rparr>)
         | Some (Inr (stakes, duration), t, p) \<Rightarrow>
             (let sim1 = sim\<lparr>sim_player := p, sim_table := t,
                             durations := durations sim @ [duration]\<rparr>
              in case max_stakes stakes of
                   Inl e \<Rightarrow> Some (Inl e, sim1)
                 | Inr m \<Rightarrow> Some (Inr stakes, sim1\<lparr>maxima := maxima sim1 @ [m]\<rparr>)))"

text \<open>
  \<open>Simulator.gather\<close>: \<open>samples\<close> sessions one after the other; \<open>fresh k\<close> is the state a
  new \<open>random.Random()\<close> gets in session number \<open>k\<close>.
\<close>

fun gather_loop ::
  "(nat \<Rightarrow> rng) \<Rightarrow> nat \<Rightarrow> nat \<Rightarrow> Simulator \<Rightarrow> ((error + unit) \<times> Simulator) option" where
  "gather_loop fresh k 0 sim = Some (Inr (), sim)"
| "gather_loop fresh k (Suc n) sim =
     (case session (fresh k) sim of
        None \<Rightarrow> None
      | Some (Inl e, sim') \<Rightarrow> Some (Inl e, sim')
      | Some (Inr _, sim') \<Rightarrow> gather_loop fresh (Suc k) n sim')"

definition gather :: "(nat \<Rightarrow> rng) \<Rightarrow> Simulator \<Rightarrow> ((error + unit) \<times> Simulator) option" where
  "gather fresh sim = gather_loop fresh 0 (samples sim) sim"

section \<open>Concrete inputs\<close>

text \<open>
  A generator that always produces 0, and a wheel on which red wins in every bin. They
  serve as inputs where a property is checked on a run of the code.
\<close>

definition zero_rng :: rng where
  "zero_rng = \<lparr>draws = (\<lambda>_. 0), pos = 0\<rparr>"

definition one_rng :: rng where
  "one_rng = \<lparr>draws = (\<lambda>_. 1), pos = 0\<rparr>"

definition red_wheel :: Wheel where
  "red_wheel = \<lparr>bins = replicate 38 [Outcome ''red'' 1], wrng = zero_rng,
                all_outcomes = [Outcome ''red'' 1, Outcome ''black'' 1]\<rparr>"

text \<open>A Martingale player at the start of a session with the given rounds and stake.\<close>

definition martingale_at :: "Table \<Rightarrow> int \<Rightarrow> int \<Rightarrow> Player" where
  "martingale_at t r s = set_stake s (set_rounds r (Player_init zero_rng t (blank Martingale)))"

definition black_wheel :: Wheel where
  "black_wheel = \<lparr>bins = replicate 38 [Outcome ''black'' 1], wrng = zero_rng,
                  all_outcomes = [Outcome ''black'' 1]\<rparr>"

section \<open>Notions used in the statements\<close>

text \<open>
  The stake a round leaves when only the strategy's own assignments are applied to it:
  what \<open>place_bets\<close> deducts, and the amount of every bet on the table whose outcome is
  in the winning bin, which is what \<open>Martingale.win\<close> adds. No odds occur in it.
\<close>

definition Martingale_stake_after :: "Table \<Rightarrow> Player \<Rightarrow> int option" where
  "Martingale_stake_after t p =
     (let (r1, t1, p1) = (if playing p then place_bets t p else (Inr (), t, p))
      in case fst (wheel_next (wheel t1)) of
           Inl e \<Rightarrow> stake p1
         | Inr ws \<Rightarrow>
             map_option
               (\<lambda>s. s + sum_list (map amount (filter (\<lambda>b. member_of (outcome b) ws) (bets t1))))
               (stake p1))"

text \<open>The names of the outcomes in a bin of a wheel.\<close>

definition names_at :: "Wheel \<Rightarrow> nat \<Rightarrow> string set" where
  "names_at w i = name ` set (bins w ! i)"

text \<open>What \<open>add_outcome\<close> makes of a wheel when the index is in range.\<close>

definition put :: "nat \<Rightarrow> Outcome \<Rightarrow> Wheel \<Rightarrow> Wheel" where
  "put bin oc w =
     w\<lparr>all_outcomes := set_add (all_outcomes w) oc,
       bins := (bins w)[bin := set_add (bins w ! bin) oc]\<rparr>"

text \<open>
  Wheel \<open>w'\<close> extends wheel \<open>w\<close>: the same number of bins and the same generator,
  every bin holds the outcomes it held before, every new name satisfies \<open>N\<close>, and every
  newly registered outcome satisfies \<open>G\<close>. A building step grows a 38-bin wheel when it
  returns a wheel that extends it.
\<close>

definition extends :: "(string \<Rightarrow> bool) \<Rightarrow> (Outcome \<Rightarrow> bool) \<Rightarrow> Wheel \<Rightarrow> Wheel \<Rightarrow> bool" where
  "extends N G w w' =
     (length (bins w') = length (bins w) \<and> wrng w' = wrng w
      \<and> (\<forall>i. set (bins w ! i) \<subseteq> set (bins w' ! i))
      \<and> (\<forall>i. names_at w i \<subseteq> names_at w' i)
      \<and> (\<forall>i. \<forall>s \<in> names_at w' i. s \<in> names_at w i \<or> N s)
      \<and> (\<forall>oc \<in> set (all_outcomes w'). oc \<in> set (all_outcomes w) \<or> G oc))"

definition grows :: "(string \<Rightarrow> bool) \<Rightarrow> (Outcome \<Rightarrow> bool) \<Rightarrow> (Wheel \<Rightarrow> error + Wheel) \<Rightarrow> bool" where
  "grows N G f = (\<forall>w. length (bins w) = 38 \<longrightarrow> (\<exists>w'. f w = Inr w' \<and> extends N G w w'))"

text \<open>Names that end in a digit or a closing bracket: all but the six even-money names.\<close>

definition numbered :: "string \<Rightarrow> bool" where
  "numbered s = (s \<noteq> [] \<and> last s \<in> set ''0123456789)'')"

definition plain :: "Outcome \<Rightarrow> bool" where
  "plain oc = (\<not> is_prison oc)"

definition six :: "string set" where
  "six = {''red'', ''black'', ''even'', ''odd'', ''high'', ''low''}"

text \<open>The even-money names bin \<open>n\<close> is to hold: three of them for 1 to 36, none otherwise.\<close>

definition even_money_names :: "nat \<Rightarrow> string set" where
  "even_money_names n =
     (if 1 \<le> n \<and> n \<le> 36
      then {if n < 19 then ''low'' else ''high'',
            if n mod 2 = 0 then ''even'' else ''odd'',
            if n \<in> set red_bins then ''red'' else ''black''}
      else {})"

text \<open>The wheel as \<open>Wheel.__init__\<close> has it before a builder runs.\<close>

definition empty_wheel :: "rng \<Rightarrow> Wheel" where
  "empty_wheel r = \<lparr>bins = replicate 38 [], wrng = r, all_outcomes = []\<rparr>"

text \<open>Every bin holds the name of its straight bet.\<close>

definition straight_names :: "Wheel \<Rightarrow> bool" where
  "straight_names w = ((\<forall>i < 37. str i \<in> names_at w i) \<and> ''00'' \<in> names_at w 37)"

text \<open>A seeding function for concrete inputs: every seed gives the generator of zeros.\<close>

definition zero_seeded :: "int \<Rightarrow> rng" where
  "zero_seeded s = zero_rng"

text \<open>
  The wheel \<open>Wheel()\<close> builds (default rules, no seed) when its generator produces zeros,
  and the source of generator states that gives that generator to every session.
\<close>

definition default_wheel :: Wheel where
  "default_wheel =
     (case Wheel_init zero_seeded zero_rng None ''american'' of
        Inr w \<Rightarrow> w
      | Inl e \<Rightarrow> empty_wheel zero_rng)"

definition zero_fresh :: "nat \<Rightarrow> rng" where
  "zero_fresh k = zero_rng"

text \<open>The outcome a player looks up as \<open>"black"\<close> is not a PrisonOutcome.\<close>

definition black_plain :: "Wheel \<Rightarrow> bool" where
  "black_plain w = (\<forall>oc. get_outcome w ''black'' = Some oc \<longrightarrow> plain oc)"

text \<open>The rounds a player has left: none while the budget is not set.\<close>

definition rounds_left :: "Player \<Rightarrow> nat" where
  "rounds_left p = (case rounds p of None \<Rightarrow> 0 | Some r \<Rightarrow> nat r)"

text \<open>
  States in which a round is started during a session: the table is cleared, the wheel
  has its 38 bins, the stake is set and the player's black outcome is no PrisonOutcome;
  for Passenger57 the limit also admits its bet of 10.
\<close>

definition P57_inv :: "Table \<Rightarrow> Player \<Rightarrow> bool" where
  "P57_inv t p = (kind p = Passenger57 \<and> bets t = [] \<and> 10 \<le> limit t
     \<and> length (bins (wheel t)) = 38 \<and> stake p \<noteq> None
     \<and> (\<forall>oc. black p = Some oc \<longrightarrow> plain oc))"

definition Mart_inv :: "Table \<Rightarrow> Player \<Rightarrow> bool" where
  "Mart_inv t p = ((kind p = Martingale \<or> kind p = SevenReds) \<and> bets t = []
     \<and> length (bins (wheel t)) = 38 \<and> stake p \<noteq> None
     \<and> (\<forall>oc. black p = Some oc \<longrightarrow> plain oc))"

text \<open>A simulator of a Martingale or SevenReds player that is ready for a session.\<close>

definition Mart_ready :: "Simulator \<Rightarrow> bool" where
  "Mart_ready sim =
     ((kind (sim_player sim) = Martingale \<or> kind (sim_player sim) = SevenReds)
      \<and> bets (sim_table sim) = [] \<and> length (bins (wheel (sim_table sim))) = 38
      \<and> black_plain (wheel (sim_table sim)))"


text \<open>
  The registry of a wheel is in order when every name in a bin is the name of a
  registered outcome and the only outcome registered under the name black is the
  even-money bet at odds 1. A building step keeps the registry in order when it returns
  a wheel of that kind whenever it was given one.
\<close>


definition registry_ok :: "Wheel \<Rightarrow> bool" where
  "registry_ok w =
     ((\<forall>i < length (bins w). names_at w i \<subseteq> name ` set (all_outcomes w))
      \<and> (\<forall>oc \<in> set (all_outcomes w). name oc = ''black'' \<longrightarrow> oc = Outcome ''black'' 1))"

definition keeps :: "(Wheel \<Rightarrow> error + Wheel) \<Rightarrow> bool" where
  "keeps f = (\<forall>w w'. registry_ok w \<longrightarrow> f w = Inr w' \<longrightarrow> registry_ok w')"

section \<open>Unfolding the model on concrete inputs\<close>

lemmas player_defs =
  set_stake_def set_rounds_def Player_init_def blank_def get_outcome_def
  playing_def Player_playing_def truthy_def member_of_def contains_def outcome_eq_def

lemmas bet_defs =
  place_bets_def Passenger57_place_bets_def Martingale_place_bets_def SevenReds_place_bets_def
  place_bet_def is_valid_def Table_init_def clear_bets_def

lemmas round_defs =
  Game_cycle_def wheel_next_def randint_def winners_def Player_winners_def
  win_def lose_def Martingale_win_def Martingale_lose_def Player_win_def Player_lose_def
  win_amount_def


section \<open>What placing a bet does\<close>

text \<open>
  \<open>place_bet\<close> always appends the bet; it raises exactly when the sum that includes the
  new bet exceeds the limit.
\<close>

lemma place_bet_appends:
  "place_bet b t =
     (if limit t < sum_list (map amount (bets t)) + amount b then Inl InvalidBet else Inr (),
      t\<lparr>bets := bets t @ [b]\<rparr>)"
  by (simp add: place_bet_def is_valid_def Let_def)

section \<open>What one round changes\<close>


lemma resolve_frame:
  "resolve ws bs outs p = (r, p') \<Longrightarrow>
     kind p' = kind p \<and> rounds p' = rounds p \<and> black p' = black p \<and> red p' = red p
     \<and> red_count p' = red_count p \<and> prng p' = prng p"
proof (induction bs arbitrary: outs p)
  case Nil
  then show ?case by simp
next
  case (Cons b bs)
  obtain r1 p1 where s: "(if member_of (outcome b) ws then win b p else lose b p) = (r1, p1)"
    by (cases "if member_of (outcome b) ws then win b p else lose b p") auto
  then have f: "kind p1 = kind p \<and> rounds p1 = rounds p \<and> black p1 = black p \<and> red p1 = red p
     \<and> red_count p1 = red_count p \<and> prng p1 = prng p"
    by (auto simp: win_def lose_def Martingale_win_def Martingale_lose_def Let_def
        split: if_splits kind.splits option.splits)
  show ?case
  proof (cases r1)
    case (Inl e)
    with Cons.prems s f show ?thesis by simp
  next
    case (Inr v)
    with Cons.prems s have "resolve ws bs (outs @ [v]) p1 = (r, p')" by simp
    from Cons.IH [OF this] f show ?thesis by simp
  qed
qed

lemma resolve_base:
  "kind p = Passenger57 \<or> kind p = PlayerRandom \<Longrightarrow> snd (resolve ws bs outs p) = p"
  by (induction bs arbitrary: outs) (auto simp: win_def lose_def split: sum.splits)

lemma resolve_Martingale_stake:
  "kind p = Martingale \<or> kind p = SevenReds \<Longrightarrow> resolve ws bs outs p = (Inr vs, p') \<Longrightarrow>
     stake p' = map_option
       (\<lambda>s. s + sum_list (map amount (filter (\<lambda>b. member_of (outcome b) ws) bs))) (stake p)"
proof (induction bs arbitrary: outs p)
  case Nil
  then show ?case by (simp add: option.map_ident)
next
  case (Cons b bs)
  obtain r1 p1 where s: "(if member_of (outcome b) ws then win b p else lose b p) = (r1, p1)"
    by (cases "if member_of (outcome b) ws then win b p else lose b p") auto
  with Cons.prems obtain v where v: "r1 = Inr v" and rest: "resolve ws bs (outs @ [v]) p1 = (Inr vs, p')"
    by (cases r1) auto
  from s Cons.prems(1) have k: "kind p1 = Martingale \<or> kind p1 = SevenReds"
    by (auto simp: win_def lose_def Martingale_win_def Martingale_lose_def Let_def
        split: if_splits option.splits)
  from s v Cons.prems(1) have st: "stake p1 =
      (if member_of (outcome b) ws then map_option (\<lambda>s. s + amount b) (stake p) else stake p)"
    by (auto simp: win_def lose_def Martingale_win_def Martingale_lose_def Let_def
        split: if_splits option.splits)
  from Cons.IH [OF k rest] st show ?case
    by (cases "stake p") (auto simp: algebra_simps)
qed

lemma place_bets_frame:
  "place_bets t p = (r, t', p') \<Longrightarrow>
     kind p' = kind p \<and> rounds p' = rounds p \<and> black p' = black p \<and> red p' = red p
     \<and> red_count p' = red_count p \<and> multiplier p' = multiplier p
     \<and> limit t' = limit t \<and> wheel t' = wheel t
     \<and> (stake p \<noteq> None \<longrightarrow> stake p' \<noteq> None)"
  by (auto simp: place_bets_def Passenger57_place_bets_def Martingale_place_bets_def
      SevenReds_place_bets_def PlayerRandom_place_bets_def place_bet_def Let_def
      split: kind.splits option.splits if_splits prod.splits sum.splits)

lemma place_bets_base_stake:
  "kind p = Passenger57 \<or> kind p = PlayerRandom \<Longrightarrow> stake (snd (snd (place_bets t p))) = stake p"
  by (auto simp: place_bets_def Passenger57_place_bets_def 
      PlayerRandom_place_bets_def place_bet_def Let_def
      split: kind.splits option.splits if_splits prod.splits sum.splits)

lemma winners_frame:
  "kind (winners ws p) = kind p \<and> stake (winners ws p) = stake p
   \<and> black (winners ws p) = black p \<and> red (winners ws p) = red p
   \<and> multiplier (winners ws p) = multiplier p \<and> prng (winners ws p) = prng p
   \<and> rounds (winners ws p) = (if truthy (rounds p) then Some (the (rounds p) - 1) else rounds p)"
  by (simp add: winners_def Player_winners_def Let_def split: kind.splits)

lemma wheel_next_frame:
  "wheel_next w = (r, w') \<Longrightarrow> bins w' = bins w \<and> all_outcomes w' = all_outcomes w"
  by (auto simp: wheel_next_def randint_def Let_def split: if_splits)

lemma wheel_next_ok:
  "length (bins w) = 38 \<Longrightarrow> \<exists>ws. fst (wheel_next w) = Inr ws \<and> ws \<in> set (bins w)"
  by (auto simp: wheel_next_def randint_def Let_def)

text \<open>The four ways a call of \<open>Game_cycle\<close> can go.\<close>

lemma Game_cycle_steps:
  assumes "Game_cycle t p = (r, t', p')"
  obtains (bet_raised) e t1 where "playing p" "place_bets t p = (Inl e, t1, p')" "r = Inl e" "t' = t1"
  | (wheel_raised) u t1 p1 e w2 where
      "(if playing p then place_bets t p else (Inr (), t, p)) = (Inr u, t1, p1)"
      "wheel_next (wheel t1) = (Inl e, w2)" "r = Inl e" "t' = t1\<lparr>wheel := w2\<rparr>" "p' = p1"
  | (resolve_raised) u t1 p1 ws w2 e where
      "(if playing p then place_bets t p else (Inr (), t, p)) = (Inr u, t1, p1)"
      "wheel_next (wheel t1) = (Inr ws, w2)"
      "resolve ws (bets t1) [] (winners ws p1) = (Inl e, p')" "r = Inl e" "t' = t1\<lparr>wheel := w2\<rparr>"
  | (finished) u t1 p1 ws w2 outs where
      "(if playing p then place_bets t p else (Inr (), t, p)) = (Inr u, t1, p1)"
      "wheel_next (wheel t1) = (Inr ws, w2)"
      "resolve ws (bets t1) [] (winners ws p1) = (Inr outs, p')"
      "r = Inr (sum_list outs, length outs)" "t' = clear_bets (t1\<lparr>wheel := w2\<rparr>)"
  using assms
  unfolding Game_cycle_def Let_def
  by (auto split: prod.splits sum.splits if_splits)



lemma resolve_stake_Some:
  "stake p \<noteq> None \<Longrightarrow> resolve ws bs outs p = (r, p') \<Longrightarrow> stake p' \<noteq> None"
proof (induction bs arbitrary: outs p)
  case Nil
  then show ?case by auto
next
  case (Cons b bs)
  obtain r1 p1 where s: "(if member_of (outcome b) ws then win b p else lose b p) = (r1, p1)"
    by (cases "if member_of (outcome b) ws then win b p else lose b p") auto
  with Cons.prems(1) have st: "stake p1 \<noteq> None"
    by (auto simp: win_def lose_def Martingale_win_def Martingale_lose_def Let_def
        split: if_splits option.splits kind.splits)
  show ?case
  proof (cases r1)
    case (Inl e)
    with Cons.prems s st show ?thesis by auto
  next
    case (Inr v)
    with Cons.prems s have "resolve ws bs (outs @ [v]) p1 = (r, p')" by simp
    from Cons.IH [OF st this] show ?thesis .
  qed
qed

lemma Game_cycle_frame:
  assumes "Game_cycle t p = (r, t', p')"
  shows "kind p' = kind p \<and> black p' = black p \<and> red p' = red p \<and> limit t' = limit t
       \<and> bins (wheel t') = bins (wheel t) \<and> all_outcomes (wheel t') = all_outcomes (wheel t)
       \<and> (stake p \<noteq> None \<longrightarrow> stake p' \<noteq> None)"
  using assms
proof (cases rule: Game_cycle_steps)
  case (bet_raised e t1)
  from place_bets_frame [OF bet_raised(2)] bet_raised show ?thesis by simp
next
  case (wheel_raised u t1 p1 e w2)
  from wheel_raised(1) have "(t1, p1) = (t, p) \<or> place_bets t p = (Inr u, t1, p1)"
    by (auto split: if_splits)
  with place_bets_frame [of t p "Inr u" t1 p1] wheel_next_frame [OF wheel_raised(2)] wheel_raised
  show ?thesis by auto
next
  case (resolve_raised u t1 p1 ws w2 e)
  from resolve_raised(1) have "(t1, p1) = (t, p) \<or> place_bets t p = (Inr u, t1, p1)"
    by (auto split: if_splits)
  with place_bets_frame [of t p "Inr u" t1 p1] wheel_next_frame [OF resolve_raised(2)]
    resolve_frame [OF resolve_raised(3)] resolve_stake_Some [OF _ resolve_raised(3)]
    winners_frame [of ws p1] resolve_raised
  show ?thesis by auto
next
  case (finished u t1 p1 ws w2 outs)
  from finished(1) have "(t1, p1) = (t, p) \<or> place_bets t p = (Inr u, t1, p1)"
    by (auto split: if_splits)
  with place_bets_frame [of t p "Inr u" t1 p1] wheel_next_frame [OF finished(2)]
    resolve_frame [OF finished(3)] resolve_stake_Some [OF _ finished(3)]
    winners_frame [of ws p1] finished
  show ?thesis by (auto simp: clear_bets_def)
qed

lemma Game_cycle_finished:
  assumes "Game_cycle t p = (Inr res, t', p')"
  shows "bets t' = []
       \<and> rounds p' = (if truthy (rounds p) then Some (the (rounds p) - 1) else rounds p)"
  using assms
proof (cases rule: Game_cycle_steps)
  case (finished u t1 p1 ws w2 outs)
  from finished(1) have "(t1, p1) = (t, p) \<or> place_bets t p = (Inr u, t1, p1)"
    by (auto split: if_splits)
  with place_bets_frame [of t p "Inr u" t1 p1] 
    resolve_frame [OF finished(3)] winners_frame [of ws p1] finished
  show ?thesis by (auto simp: clear_bets_def)
qed simp_all

text \<open>
  An invariant of the loop of \<open>Simulator.session\<close>: when the loop returns, it does so from
  a state that satisfies the invariant; when a round raised, it was entered in such a
  state.
\<close>

lemma session_loop_invariant:
  assumes ret: "session_loop t p stakes d = Some y"
    and init: "I t p stakes d"
    and step: "\<And>t p stakes d res t' p'. I t p stakes d \<Longrightarrow> playing p
                 \<Longrightarrow> Game_cycle t p = (Inr res, t', p') \<Longrightarrow> I t' p' (stakes @ [stake p']) (d + 1)"
  shows "(\<forall>e t' p'. y = (Inl e, t', p') \<longrightarrow>
            (\<exists>t0 p0 s0 d0. I t0 p0 s0 d0 \<and> playing p0 \<and> Game_cycle t0 p0 = (Inl e, t', p')))
       \<and> (\<forall>sts d' t' p'. y = (Inr (sts, d'), t', p') \<longrightarrow> I t' p' sts d' \<and> \<not> playing p')"
proof -
  have "I t p stakes d \<longrightarrow>
       (\<forall>e t' p'. y = (Inl e, t', p') \<longrightarrow>
            (\<exists>t0 p0 s0 d0. I t0 p0 s0 d0 \<and> playing p0 \<and> Game_cycle t0 p0 = (Inl e, t', p')))
       \<and> (\<forall>sts d' t' p'. y = (Inr (sts, d'), t', p') \<longrightarrow> I t' p' sts d' \<and> \<not> playing p')"
    using ret
  proof (induction rule: session_loop.raw_induct [rotated, consumes 1])
    case (1 loop t p stakes d y)
    show ?case
    proof
      assume inv: "I t p stakes d"
      show "(\<forall>e t' p'. y = (Inl e, t', p') \<longrightarrow>
            (\<exists>t0 p0 s0 d0. I t0 p0 s0 d0 \<and> playing p0 \<and> Game_cycle t0 p0 = (Inl e, t', p')))
       \<and> (\<forall>sts d' t' p'. y = (Inr (sts, d'), t', p') \<longrightarrow> I t' p' sts d' \<and> \<not> playing p')"
      proof (cases "playing p")
        case False
        with 1(2) inv show ?thesis by auto
      next
        case True
        obtain r t1 p1 where c: "Game_cycle t p = (r, t1, p1)"
          by (cases "Game_cycle t p") auto
        show ?thesis
        proof (cases r)
          case (Inl e)
          with 1(2) True c have "y = (Inl e, t1, p1)" by simp
          with inv True c Inl show ?thesis by blast
        next
          case (Inr res)
          with 1(2) True c have rec: "loop t1 p1 (stakes @ [stake p1]) (d + 1) = Some y" by simp
          from step [OF inv True] c Inr have "I t1 p1 (stakes @ [stake p1]) (d + 1)" by simp
          from 1(1) [OF rec, THEN mp, OF this] show ?thesis .
        qed
      qed
    qed
  qed
  with init show ?thesis by blast
qed

lemma session_loop_terminates:
  "kind p \<noteq> Passenger57 \<Longrightarrow> \<exists>y. session_loop t p stakes d = Some y"
proof (induction "nat (the (rounds p))" arbitrary: t p stakes d rule: less_induct)
  case less
  show ?case
  proof (cases "playing p")
    case False
    then show ?thesis by (subst session_loop.simps) simp
  next
    case True
    with less.prems obtain r s where rs: "rounds p = Some r" "r > 0" "stake p = Some s"
      by (auto simp: playing_def Player_playing_def split: kind.splits option.splits if_splits)
    obtain res t1 p1 where c: "Game_cycle t p = (res, t1, p1)"
      by (cases "Game_cycle t p") auto
    show ?thesis
    proof (cases res)
      case (Inl e)
      with True c show ?thesis by (subst session_loop.simps) simp
    next
      case (Inr v)
      with c Game_cycle_finished [of t p v t1 p1] rs
      have "rounds p1 = Some (r - 1)" by (simp add: truthy_def)
      with rs have "nat (the (rounds p1)) < nat (the (rounds p))" by simp
      moreover from Game_cycle_frame [OF c] less.prems have "kind p1 \<noteq> Passenger57" by simp
      ultimately obtain y where y: "session_loop t1 p1 (stakes @ [stake p1]) (d + 1) = Some y"
        using less.hyps by blast
      have "session_loop t p stakes d = session_loop t1 p1 (stakes @ [stake p1]) (d + 1)"
        using True c Inr by (subst session_loop.simps) simp
      with y have "session_loop t p stakes d = Some y" by simp
      then show ?thesis ..
    qed
  qed
qed


section \<open>Which exceptions a round can raise\<close>


lemma wheel_next_error: "wheel_next w = (Inl e, w') \<Longrightarrow> e = IndexError"
  by (auto simp: wheel_next_def randint_def Let_def split: if_splits)

lemma resolve_error:
  "resolve ws bs outs p = (Inl e, p') \<Longrightarrow> e = TypeError \<or> e = AttributeError"
proof (induction bs arbitrary: outs p)
  case Nil
  then show ?case by simp
next
  case (Cons b bs)
  obtain r1 p1 where s: "(if member_of (outcome b) ws then win b p else lose b p) = (r1, p1)"
    by (cases "if member_of (outcome b) ws then win b p else lose b p") auto
  show ?case
  proof (cases r1)
    case (Inl e1)
    with Cons.prems s have "e1 = e" by simp
    with s Inl show ?thesis
      by (auto simp: win_def lose_def Martingale_win_def Martingale_lose_def Player_win_def
          Player_lose_def win_amount_def Let_def
          split: if_splits option.splits kind.splits Outcome.splits)
  next
    case (Inr v)
    with Cons.prems s have "resolve ws bs (outs @ [v]) p1 = (Inl e, p')" by simp
    from Cons.IH [OF this] show ?thesis .
  qed
qed

lemma Game_cycle_InvalidBet:
  assumes "Game_cycle t p = (Inl InvalidBet, t', p')"
  shows "playing p \<and> fst (place_bets t p) = Inl InvalidBet"
  using assms
proof (cases rule: Game_cycle_steps)
  case (bet_raised e t1)
  then show ?thesis by simp
next
  case (wheel_raised u t1 p1 e w2)
  with wheel_next_error [OF wheel_raised(2)] show ?thesis by simp
next
  case (resolve_raised u t1 p1 ws w2 e)
  with resolve_error [OF resolve_raised(3)] show ?thesis by auto
qed simp

lemma Martingale_place_bets_Some:
  assumes "stake p = Some s"
  shows "Martingale_place_bets t p =
           (fst (place_bet \<lparr>amount = min (2 ^ multiplier p) (min (limit t) s),
                           outcome = black p\<rparr> t),
            t\<lparr>bets := bets t @ [\<lparr>amount = min (2 ^ multiplier p) (min (limit t) s),
                                 outcome = black p\<rparr>]\<rparr>,
            p\<lparr>stake := Some (s - min (2 ^ multiplier p) (min (limit t) s))\<rparr>)"
  using assms
  by (auto simp: Martingale_place_bets_def place_bet_def Let_def min_def)

lemma Martingale_place_bets_None:
  "stake p = None \<Longrightarrow> Martingale_place_bets t p = (Inl TypeError, t, p)"
  by (simp add: Martingale_place_bets_def Let_def)

lemma Martingale_place_bets_empty:
  assumes "bets t = []"
  shows "fst (Martingale_place_bets t p) \<noteq> Inl InvalidBet
       \<and> length (bets (fst (snd (Martingale_place_bets t p)))) \<le> 1
       \<and> (\<forall>b \<in> set (bets (fst (snd (Martingale_place_bets t p)))). amount b \<le> limit t)"
proof (cases "stake p")
  case None
  with assms show ?thesis by (simp add: Martingale_place_bets_None)
next
  case (Some s)
  with assms show ?thesis
    by (simp add: Martingale_place_bets_Some place_bet_def is_valid_def Let_def)
qed

lemma Martingale_place_bets_empty_table:
  assumes "kind p = Martingale \<or> kind p = SevenReds" and "bets t = []"
  shows "fst (place_bets t p) \<noteq> Inl InvalidBet
       \<and> length (bets (fst (snd (place_bets t p)))) \<le> 1
       \<and> (\<forall>b \<in> set (bets (fst (snd (place_bets t p)))). amount b \<le> limit t)"
proof (cases "place_bets t p = Martingale_place_bets t p")
  case True
  with Martingale_place_bets_empty [OF assms(2), of p] show ?thesis by simp
next
  case False
  with assms(1) have "place_bets t p = (Inr (), t, p)"
    by (auto simp: place_bets_def SevenReds_place_bets_def Let_def split: if_splits)
  with assms(2) show ?thesis by simp
qed

lemma max_stakes_error: "max_stakes xs = Inl e \<Longrightarrow> e \<noteq> InvalidBet"
  by (auto simp: max_stakes_def split: list.splits if_splits)

lemma Martingale_loop_no_InvalidBet:
  assumes k: "kind p = Martingale \<or> kind p = SevenReds" and b: "bets t = []"
    and ret: "session_loop t p stakes d = Some (r, t', p')"
  shows "r \<noteq> Inl InvalidBet \<and> kind p' = kind p \<and> ((\<exists>v. r = Inr v) \<longrightarrow> bets t' = [])"
proof -
  let ?I = "\<lambda>t0 p0 (s0::int option list) (d0::nat). kind p0 = kind p \<and> bets t0 = []"
  have inv: "(\<forall>e t1 p1. (r, t', p') = (Inl e, t1, p1) \<longrightarrow>
            (\<exists>t0 p0 s0 d0. ?I t0 p0 s0 d0 \<and> playing p0 \<and> Game_cycle t0 p0 = (Inl e, t1, p1)))
       \<and> (\<forall>sts d' t1 p1. (r, t', p') = (Inr (sts, d'), t1, p1) \<longrightarrow> ?I t1 p1 sts d' \<and> \<not> playing p1)"
  proof (rule session_loop_invariant [where I = ?I, OF ret])
    from b show "kind p = kind p \<and> bets t = []" by simp
  next
    fix t0 p0 s0 d0 res t1 p1
    assume "kind p0 = kind p \<and> bets t0 = []" and "Game_cycle t0 p0 = (Inr res, t1, p1)"
    with Game_cycle_frame [of t0 p0 "Inr res" t1 p1] Game_cycle_finished [of t0 p0 res t1 p1]
    show "kind p1 = kind p \<and> bets t1 = []" by simp
  qed
  show ?thesis
  proof (cases r)
    case (Inl e)
    with inv obtain t0 p0 where c: "kind p0 = kind p" "bets t0 = []"
      "Game_cycle t0 p0 = (Inl e, t', p')" by blast
    from Game_cycle_frame [OF c(3)] c(1) have kp: "kind p' = kind p" by simp
    have "e \<noteq> InvalidBet"
    proof
      assume "e = InvalidBet"
      with c(3) Game_cycle_InvalidBet have "fst (place_bets t0 p0) = Inl InvalidBet" by blast
      with Martingale_place_bets_empty_table [of p0 t0] c k show False by simp
    qed
    with Inl kp show ?thesis by simp
  next
    case (Inr v)
    with inv have "kind p' = kind p \<and> bets t' = []" by (cases v) blast
    with Inr show ?thesis by simp
  qed
qed


section \<open>Sessions of the Martingale family\<close>


lemma Player_init_kind: "kind (set_stake s (set_rounds r (Player_init fresh t p))) = kind p"
  by (simp add: set_stake_def set_rounds_def Player_init_def Let_def split: kind.splits)

lemma session_steps:
  assumes "session fresh sim = Some (r, sim')"
  obtains (raised) e t p where
      "session_loop (sim_table sim)
         (set_stake (init_stake sim) (set_rounds (init_duration sim)
            (Player_init fresh (sim_table sim) (sim_player sim))))
         [Some (init_stake sim)] 0 = Some (Inl e, t, p)"
      "r = Inl e" "sim' = sim\<lparr>sim_player := p, sim_table := t\<rparr>"
  | (returned) sts dur t p where
      "session_loop (sim_table sim)
         (set_stake (init_stake sim) (set_rounds (init_duration sim)
            (Player_init fresh (sim_table sim) (sim_player sim))))
         [Some (init_stake sim)] 0 = Some (Inr (sts, dur), t, p)"
      "r = (case max_stakes sts of Inl e \<Rightarrow> Inl e | Inr m \<Rightarrow> Inr sts)"
      "sim' = (case max_stakes sts of
                 Inl e \<Rightarrow> sim\<lparr>sim_player := p, sim_table := t, durations := durations sim @ [dur]\<rparr>
               | Inr m \<Rightarrow> sim\<lparr>sim_player := p, sim_table := t, durations := durations sim @ [dur],
                               maxima := maxima sim @ [m]\<rparr>)"
  using assms
  unfolding session_def Let_def
  by (auto simp: set_stake_def split: option.splits sum.splits prod.splits)

lemma Martingale_session_no_InvalidBet:
  assumes k: "kind (sim_player sim) = Martingale \<or> kind (sim_player sim) = SevenReds"
    and b: "bets (sim_table sim) = []"
    and ret: "session fresh sim = Some (r, sim')"
  shows "r \<noteq> Inl InvalidBet \<and> kind (sim_player sim') = kind (sim_player sim)
       \<and> ((\<exists>v. r = Inr v) \<longrightarrow> bets (sim_table sim') = [])
       \<and> samples sim' = samples sim"
  using ret
proof (cases rule: session_steps)
  case (raised e t p)
  from Martingale_loop_no_InvalidBet [OF _ b raised(1)] k raised show ?thesis
    by (simp add: Player_init_kind)
next
  case (returned sts dur t p)
  from Martingale_loop_no_InvalidBet [OF _ b returned(1)] k
  have "kind p = kind (sim_player sim) \<and> bets t = []" by (simp add: Player_init_kind)
  with returned max_stakes_error [of sts] show ?thesis
    by (auto split: sum.splits)
qed

lemma Martingale_gather_no_InvalidBet:
  assumes "kind (sim_player sim) = Martingale \<or> kind (sim_player sim) = SevenReds"
    and "bets (sim_table sim) = []"
    and "gather_loop fresh k n sim = Some (r, sim')"
  shows "r \<noteq> Inl InvalidBet"
  using assms
proof (induction n arbitrary: k sim)
  case 0
  then show ?case by auto
next
  case (Suc n)
  from Suc.prems(3) obtain r1 sim1 where s: "session (fresh k) sim = Some (r1, sim1)"
    by (auto split: option.splits)
  note m = Martingale_session_no_InvalidBet [OF Suc.prems(1,2) s]
  show ?case
  proof (cases r1)
    case (Inl e)
    with Suc.prems(3) s m show ?thesis by auto
  next
    case (Inr v)
    with Suc.prems(3) s have "gather_loop fresh (Suc k) n sim1 = Some (r, sim')" by simp
    moreover from m Inr Suc.prems(1) have "kind (sim_player sim1) = Martingale \<or> kind (sim_player sim1) = SevenReds"
      and "bets (sim_table sim1) = []" by auto
    ultimately show ?thesis using Suc.IH by blast
  qed
qed


section \<open>The stake over a round\<close>


lemma Game_cycle_base_stake:
  assumes k: "kind p = Passenger57 \<or> kind p = PlayerRandom"
  shows "stake (snd (snd (Game_cycle t p))) = stake p"
proof -
  obtain r t' p' where c: "Game_cycle t p = (r, t', p')" by (cases "Game_cycle t p") auto
  have "stake p' = stake p"
    using c
  proof (cases rule: Game_cycle_steps)
    case (bet_raised e t1)
    with place_bets_base_stake [OF k, of t] show ?thesis by simp
  next
    case (wheel_raised u t1 p1 e w2)
    with place_bets_base_stake [OF k, of t] show ?thesis by (auto split: if_splits)
  next
    case (resolve_raised u t1 p1 ws w2 e)
    from resolve_raised(1) have p1: "stake p1 = stake p \<and> kind p1 = kind p"
      using place_bets_base_stake [OF k, of t] place_bets_frame [of t p "Inr u" t1 p1]
      by (auto split: if_splits)
    with k winners_frame [of ws p1] resolve_base [of "winners ws p1" ws "bets t1" "[]"]
      resolve_raised(3) show ?thesis by simp
  next
    case (finished u t1 p1 ws w2 outs)
    from finished(1) have p1: "stake p1 = stake p \<and> kind p1 = kind p"
      using place_bets_base_stake [OF k, of t] place_bets_frame [of t p "Inr u" t1 p1]
      by (auto split: if_splits)
    with k winners_frame [of ws p1] resolve_base [of "winners ws p1" ws "bets t1" "[]"]
      finished(3) show ?thesis by simp
  qed
  with c show ?thesis by simp
qed

lemma Game_cycle_Martingale_stake:
  assumes k: "kind p = Martingale \<or> kind p = SevenReds"
    and c: "Game_cycle t p = (Inr res, t', p')"
  shows "stake p' = Martingale_stake_after t p"
  using c
proof (cases rule: Game_cycle_steps)
  case (finished u t1 p1 ws w2 outs)
  from finished(1) have k1: "kind p1 = kind p"
    using place_bets_frame [of t p "Inr u" t1 p1] by (auto split: if_splits)
  with k winners_frame [of ws p1]
  have "kind (winners ws p1) = Martingale \<or> kind (winners ws p1) = SevenReds" by simp
  from resolve_Martingale_stake [OF this finished(3)] winners_frame [of ws p1] finished(1,2)
  show ?thesis
    by (simp add: Martingale_stake_after_def)
qed simp_all

lemma base_loop_stakes:
  assumes k: "kind p = Passenger57 \<or> kind p = PlayerRandom"
    and ret: "session_loop t p stakes d = Some (Inr (sts, d'), t', p')"
  shows "set sts \<subseteq> set stakes \<union> {stake p}"
proof -
  let ?I = "\<lambda>(t0::Table) (p0::Player) (s0::int option list) (d0::nat). kind p0 = kind p \<and> stake p0 = stake p
              \<and> set s0 \<subseteq> set stakes \<union> {stake p}"
  let ?y = "(Inr (sts, d'), t', p') :: (error + int option list \<times> nat) \<times> Table \<times> Player"
  have "(\<forall>e t1 p1. ?y = (Inl e, t1, p1) \<longrightarrow>
            (\<exists>t0 p0 s0 d0. ?I t0 p0 s0 d0 \<and> playing p0 \<and> Game_cycle t0 p0 = (Inl e, t1, p1)))
       \<and> (\<forall>sts1 d1 t1 p1. ?y = (Inr (sts1, d1), t1, p1)
             \<longrightarrow> ?I t1 p1 sts1 d1 \<and> \<not> playing p1)"
  proof (rule session_loop_invariant [where I = ?I, OF ret])
    show "kind p = kind p \<and> stake p = stake p \<and> set stakes \<subseteq> set stakes \<union> {stake p}" by auto
  next
    fix t0 p0 s0 d0 res t1 p1
    assume i: "kind p0 = kind p \<and> stake p0 = stake p \<and> set s0 \<subseteq> set stakes \<union> {stake p}"
      and c: "Game_cycle t0 p0 = (Inr res, t1, p1)"
    from i k have "kind p0 = Passenger57 \<or> kind p0 = PlayerRandom" by simp
    from Game_cycle_base_stake [OF this, of t0] c have "stake p1 = stake p0" by simp
    with i Game_cycle_frame [OF c]
    show "kind p1 = kind p \<and> stake p1 = stake p \<and> set (s0 @ [stake p1]) \<subseteq> set stakes \<union> {stake p}"
      by auto
  qed
  then show ?thesis by simp
qed


section \<open>Building the wheel\<close>


lemma contains_iff: "contains b oc \<longleftrightarrow> name oc \<in> name ` set b"
  by (auto simp: contains_def outcome_eq_def list_ex_iff intro: rev_image_eqI)

lemma set_set_add: "set (set_add b oc) = (if contains b oc then set b else insert oc (set b))"
  by (simp add: set_add_def)

lemma names_set_add: "name ` set (set_add b oc) = insert (name oc) (name ` set b)"
  by (auto simp: set_add_def contains_iff)

lemma add_outcome_put: "bin < length (bins w) \<Longrightarrow> add_outcome bin oc w = Inr (put bin oc w)"
  by (simp add: add_outcome_def put_def set_add_def Let_def)

lemma put_length [simp]: "length (bins (put b oc w)) = length (bins w)"
  by (simp add: put_def)

lemma put_wrng [simp]: "wrng (put b oc w) = wrng w"
  by (simp add: put_def)

lemma names_at_put:
  "names_at (put b oc w) i =
     (if i = b \<and> b < length (bins w) then insert (name oc) (names_at w i) else names_at w i)"
proof (cases "b < length (bins w)")
  case True
  then show ?thesis by (auto simp: names_at_def put_def names_set_add nth_list_update)
next
  case False
  then show ?thesis by (simp add: names_at_def put_def list_update_beyond)
qed

lemma all_outcomes_put:
  "set (all_outcomes (put b oc w)) =
     (if contains (all_outcomes w) oc then set (all_outcomes w)
      else insert oc (set (all_outcomes w)))"
  by (simp add: put_def set_set_add)

lemma extends_refl: "extends N G w w"
  by (simp add: extends_def)

lemma extends_trans:
  assumes "extends N G a b" and "extends N G b c"
  shows "extends N G a c"
proof -
  have 1: "length (bins c) = length (bins a) \<and> wrng c = wrng a"
    using assms by (simp add: extends_def)
  have 2: "\<forall>i. names_at a i \<subseteq> names_at c i"
    using assms unfolding extends_def by blast
  have 5: "\<forall>i. set (bins a ! i) \<subseteq> set (bins c ! i)"
    using assms unfolding extends_def by blast
  have 3: "\<forall>i. \<forall>s \<in> names_at c i. s \<in> names_at a i \<or> N s"
    using assms unfolding extends_def by blast
  have 4: "\<forall>oc \<in> set (all_outcomes c). oc \<in> set (all_outcomes a) \<or> G oc"
    using assms unfolding extends_def by blast
  from 1 2 3 4 5 show ?thesis unfolding extends_def by blast
qed

lemma set_bins_put: "set (bins w ! i) \<subseteq> set (bins (put b oc w) ! i)"
proof (cases "b < length (bins w)")
  case True
  then show ?thesis by (auto simp: put_def nth_list_update set_set_add)
next
  case False
  then show ?thesis by (simp add: put_def list_update_beyond)
qed

lemma extends_put:
  assumes "N (name oc)" and "G oc"
  shows "extends N G w (put b oc w)"
proof -
  have 2: "\<forall>i. names_at w i \<subseteq> names_at (put b oc w) i"
    by (auto simp: names_at_put)
  have 3: "\<forall>i. \<forall>s \<in> names_at (put b oc w) i. s \<in> names_at w i \<or> N s"
    using assms(1) by (auto simp: names_at_put split: if_splits)
  have 4: "\<forall>x \<in> set (all_outcomes (put b oc w)). x \<in> set (all_outcomes w) \<or> G x"
    using assms(2) by (auto simp: all_outcomes_put split: if_splits)
  from 2 3 4 set_bins_put show ?thesis unfolding extends_def by simp
qed

lemma grows_add_outcome:
  assumes "bin < 38" and "N (name oc)" and "G oc"
  shows "grows N G (add_outcome bin oc)"
  unfolding grows_def
proof (intro allI impI)
  fix w :: Wheel
  assume "length (bins w) = 38"
  with assms(1) have "add_outcome bin oc w = Inr (put bin oc w)" by (simp add: add_outcome_put)
  with extends_put [of N oc G w bin] assms(2,3)
  show "\<exists>w'. add_outcome bin oc w = Inr w' \<and> extends N G w w'" by blast
qed

lemma grows_Inr: "grows N G Inr"
  by (simp add: grows_def extends_refl)

lemma grows_and_then:
  assumes f: "grows N G f" and g: "grows N G g" and h: "\<And>w. h w = and_then (f w) g"
  shows "grows N G h"
  unfolding grows_def
proof (intro allI impI)
  fix w :: Wheel
  assume l: "length (bins w) = 38"
  with f obtain w1 where 1: "f w = Inr w1" "extends N G w w1"
    unfolding grows_def by blast
  from 1(2) l have "length (bins w1) = 38" by (simp add: extends_def)
  with g obtain w2 where 2: "g w1 = Inr w2" "extends N G w1 w2"
    unfolding grows_def by blast
  have "h w = Inr w2" using 1(1) 2(1) by (simp add: h and_then_def)
  with extends_trans [OF 1(2) 2(2)]
  show "\<exists>w'. h w = Inr w' \<and> extends N G w w'" by blast
qed

lemma grows_for_each_aux:
  "(\<And>x. x \<in> set xs \<Longrightarrow> grows N G (f x)) \<Longrightarrow> grows N G (for_each xs f)"
proof (induction xs)
  case Nil
  show ?case by (simp add: grows_def extends_refl)
next
  case (Cons x xs)
  have "grows N G (f x)" using Cons.prems by simp
  moreover have "grows N G (for_each xs f)" using Cons by simp
  moreover have "\<And>w. for_each (x # xs) f w = and_then (f x w) (for_each xs f)"
    by (simp add: and_then_def)
  ultimately show ?case by (rule grows_and_then)
qed

lemma grows_for_each:
  assumes "\<And>x. x \<in> set xs \<Longrightarrow> grows N G (f x)" and "\<And>w. h w = for_each xs f w"
  shows "grows N G h"
proof -
  from assms(2) have "h = for_each xs f" by (rule ext)
  with grows_for_each_aux [of xs N G f] assms(1) show ?thesis by simp
qed



text \<open>The names the builders format end in a digit or a bracket.\<close>

lemma digit_in: "digit d \<in> set ''0123456789''"
proof -
  have "d mod 10 < length ''0123456789''" by simp
  then show ?thesis unfolding digit_def by (rule nth_mem)
qed

lemma str_last: "str n \<noteq> [] \<and> last (str n) = digit n"
proof -
  have "str n = (if n < 10 then [digit n] else str (n div 10) @ [digit n])"
    by (rule str.simps)
  then show ?thesis by (cases "n < 10") simp_all
qed

lemma numbered_str: "numbered (str n)"
  using str_last [of n] digit_in [of n] by (auto simp: numbered_def)

lemma numbered_append: "numbered s \<Longrightarrow> numbered (r @ s)"
  by (simp add: numbered_def)

lemma numbered_Cons: "numbered s \<Longrightarrow> numbered (c # s)"
  by (simp add: numbered_def)

lemma numbered_dashed: "ns \<noteq> [] \<Longrightarrow> numbered (dashed ns)"
  by (induction ns rule: dashed.induct) (simp_all add: numbered_str numbered_append numbered_Cons)

lemma numbered_not_six: "numbered s \<Longrightarrow> s \<notin> six"
  by (auto simp: numbered_def six_def)



lemma extends_mono:
  assumes "extends N G w w'" and "\<And>s. N s \<Longrightarrow> N' s" and "\<And>oc. G oc \<Longrightarrow> G' oc"
  shows "extends N' G' w w'"
proof -
  have 3: "\<forall>i. \<forall>s \<in> names_at w' i. s \<in> names_at w i \<or> N' s"
    using assms(1,2) unfolding extends_def by blast
  have 4: "\<forall>oc \<in> set (all_outcomes w'). oc \<in> set (all_outcomes w) \<or> G' oc"
    using assms(1,3) unfolding extends_def by blast
  from assms(1) 3 4 show ?thesis unfolding extends_def by simp
qed

lemma grows_mono:
  assumes "grows N G f" and "\<And>s. N s \<Longrightarrow> N' s" and "\<And>oc. G oc \<Longrightarrow> G' oc"
  shows "grows N' G' f"
  unfolding grows_def
proof (intro allI impI)
  fix w :: Wheel
  assume "length (bins w) = 38"
  with assms(1) obtain w' where w': "f w = Inr w'" "extends N G w w'"
    unfolding grows_def by blast
  from w'(2) have "extends N' G' w w'" by (rule extends_mono) (fact assms(2), fact assms(3))
  with w'(1) show "\<exists>w'. f w = Inr w' \<and> extends N' G' w w'" by blast
qed

lemma plain_Outcome [simp]: "plain (Outcome n d)"
  by (simp add: plain_def)

lemma grows_add_left_right_pair:
  assumes "idx + 1 < 38" and "numbered (name oc)" and "plain oc"
  shows "grows numbered plain (add_left_right_pair oc idx)"
proof (rule grows_and_then [OF _ _ add_left_right_pair_def])
  from assms show "grows numbered plain (add_outcome idx oc)"
    by (intro grows_add_outcome) simp_all
  from assms show "grows numbered plain (add_outcome (idx + 1) oc)"
    by (intro grows_add_outcome) simp_all
qed

lemma grows_add_top_down_pair:
  assumes "idx + 3 < 38" and "numbered (name oc)" and "plain oc"
  shows "grows numbered plain (add_top_down_pair oc idx)"
proof (rule grows_and_then [OF _ _ add_top_down_pair_def])
  from assms show "grows numbered plain (add_outcome idx oc)"
    by (intro grows_add_outcome) simp_all
  from assms show "grows numbered plain (add_outcome (idx + 3) oc)"
    by (intro grows_add_outcome) simp_all
qed

lemma grows_add_split_bets: "grows numbered plain add_split_bets"
proof (rule grows_and_then [OF _ _ add_split_bets_def])
  show "grows numbered plain (for_each [0..<12] (\<lambda>r. for_each [1..<3] (\<lambda>i.
          let n = 3 * r + i in add_left_right_pair (Outcome (dashed [n, n + 1]) 17) n)))"
    unfolding Let_def
    by (intro grows_for_each_aux grows_add_left_right_pair) (simp_all add: numbered_dashed del: dashed.simps)
  show "grows numbered plain
     (for_each [1..<34] (\<lambda>n. add_top_down_pair (Outcome (dashed [n, n + 3]) 17) n))"
    by (intro grows_for_each_aux grows_add_top_down_pair) (simp_all add: numbered_dashed del: dashed.simps)
qed

lemma grows_add_street_bets: "grows numbered plain add_street_bets"
  unfolding Let_def
  by (rule grows_for_each [OF _ add_street_bets_def [unfolded Let_def]])
    (intro grows_for_each_aux grows_add_outcome, simp_all add: numbered_dashed del: dashed.simps)


lemma grows_add_corner_block:
  assumes "idx + 4 < 38"
  shows "grows numbered plain (add_corner_block idx)"
  using assms
  by (intro grows_for_each [OF _ add_corner_block_def [unfolded Let_def]] grows_add_outcome)
    (auto simp: numbered_dashed simp del: dashed.simps)

lemma grows_add_corner_bets: "grows numbered plain add_corner_bets"
proof (rule grows_for_each [OF _ add_corner_bets_def])
  fix r :: nat
  assume "r \<in> set [0..<11]"
  then have r: "r < 11" by simp
  show "grows numbered plain
          (\<lambda>w'. and_then (add_corner_block (3 * r + 1) w') (add_corner_block (3 * r + 2)))"
    by (rule grows_and_then [OF _ _ refl]) (use r in \<open>simp_all add: grows_add_corner_block\<close>)
qed

lemma grows_add_line_bets: "grows numbered plain add_line_bets"
  by (intro grows_for_each [OF _ add_line_bets_def [unfolded Let_def]] grows_for_each_aux
      grows_add_outcome)
    (auto simp: numbered_dashed simp del: dashed.simps)

lemma numbered_bracket: "numbered (s @ str k @ '')'')"
  by (simp add: numbered_def)

lemma grows_add_dozen_bets: "grows numbered plain add_dozen_bets"
  by (intro grows_for_each [OF _ add_dozen_bets_def [unfolded Let_def]] grows_for_each_aux
      grows_add_outcome)
    (auto simp: numbered_def)

lemma grows_add_column_bets: "grows numbered plain add_column_bets"
  by (intro grows_for_each [OF _ add_column_bets_def [unfolded Let_def]] grows_for_each_aux
      grows_add_outcome)
    (auto simp: numbered_def)

lemma grows_add_five_bets: "grows numbered plain (add_five_bets BinBuilder)"
proof -
  have "grows numbered plain (\<lambda>w. and_then
          (for_each [0..<4] (\<lambda>i. add_outcome i (Outcome ''00-0-1-2-3'' 6)) w)
          (add_outcome 37 (Outcome ''00-0-1-2-3'' 6)))"
    by (intro grows_and_then [OF _ _ refl] grows_for_each_aux grows_add_outcome)
      (auto simp: numbered_def)
  then show ?thesis by (simp add: add_five_bets_def [abs_def] Let_def)
qed

lemma grows_add_five_bets_Euro: "grows N G (add_five_bets EuroBinBuilder)"
  by (simp add: add_five_bets_def [abs_def] grows_def extends_refl)

lemma grows_add_four_bets: "grows numbered plain add_four_bets"
  by (intro grows_for_each [OF _ add_four_bets_def [unfolded Let_def]] grows_add_outcome)
    (auto simp: numbered_def)

lemma grows_add_straight_bets: "grows numbered plain (add_straight_bets BinBuilder)"
proof -
  have "grows numbered plain (\<lambda>w. and_then
          (for_each [0..<37] (\<lambda>n. add_outcome n (Outcome (str n) 35)) w)
          (add_outcome 37 (Outcome ''00'' 35)))"
    by (intro grows_and_then [OF _ _ refl] grows_for_each_aux grows_add_outcome)
      (auto simp: numbered_str, simp add: numbered_def)
  then show ?thesis by (simp add: add_straight_bets_def [abs_def])
qed

lemma grows_add_straight_bets_Euro:
  "grows numbered (\<lambda>oc. True) (add_straight_bets EuroBinBuilder)"
proof -
  have "grows numbered (\<lambda>oc. True) (\<lambda>w. and_then
          (and_then (for_each [1..<37] (\<lambda>n. add_outcome n (Outcome (str n) 35)) w)
             (add_outcome 37 (Outcome ''00'' 35)))
          (add_outcome 0 (PrisonOutcome ''0'' 35)))"
    by (intro grows_and_then [OF _ _ refl] grows_for_each_aux grows_add_outcome)
      (auto simp: numbered_str, simp_all add: numbered_def)
  then show ?thesis by (simp add: add_straight_bets_def [abs_def])
qed



lemma extends_length: "extends N G w w' \<Longrightarrow> length (bins w) = 38 \<Longrightarrow> length (bins w') = 38"
  by (simp add: extends_def)

lemma extends_elems: "extends N G w w' \<Longrightarrow> oc \<in> set (bins w ! i) \<Longrightarrow> oc \<in> set (bins w' ! i)"
  unfolding extends_def by blast

lemma extends_names_mono: "extends N G w w' \<Longrightarrow> s \<in> names_at w i \<Longrightarrow> s \<in> names_at w' i"
  unfolding extends_def by blast

lemma extends_numbered_six:
  assumes "extends numbered G w w'"
  shows "names_at w' i \<inter> six = names_at w i \<inter> six"
proof -
  from assms have "names_at w i \<subseteq> names_at w' i"
    and "\<forall>s \<in> names_at w' i. s \<in> names_at w i \<or> numbered s"
    unfolding extends_def by blast+
  with numbered_not_six show ?thesis by blast
qed

lemma for_each_names:
  assumes step: "\<And>x w. x \<in> set xs \<Longrightarrow> length (bins w) = 38 \<Longrightarrow>
      \<exists>w'. f x w = Inr w' \<and> extends N G w w' \<and> (\<forall>i. names_at w' i = names_at w i \<union> A x i)"
    and len: "length (bins w) = 38"
  shows "\<exists>w'. for_each xs f w = Inr w' \<and> extends N G w w'
           \<and> (\<forall>i. names_at w' i = names_at w i \<union> (\<Union>x \<in> set xs. A x i))"
  using assms
proof (induction xs arbitrary: w)
  case Nil
  then show ?case by (simp add: extends_refl)
next
  case (Cons x xs)
  from Cons.prems(1) [of x w] Cons.prems(2)
  obtain w1 where 1: "f x w = Inr w1" "extends N G w w1"
    "\<forall>i. names_at w1 i = names_at w i \<union> A x i" by auto
  from 1(2) Cons.prems(2) have l1: "length (bins w1) = 38" by (rule extends_length)
  have "\<exists>w'. for_each xs f w1 = Inr w' \<and> extends N G w1 w'
           \<and> (\<forall>i. names_at w' i = names_at w1 i \<union> (\<Union>x \<in> set xs. A x i))"
    by (rule Cons.IH) (use Cons.prems(1) l1 in auto)
  then obtain w2 where 2: "for_each xs f w1 = Inr w2" "extends N G w1 w2"
    "\<forall>i. names_at w2 i = names_at w1 i \<union> (\<Union>x \<in> set xs. A x i)" by blast
  have "for_each (x # xs) f w = Inr w2" using 1(1) 2(1) by simp
  moreover have "extends N G w w2" using 1(2) 2(2) by (rule extends_trans)
  moreover have "\<forall>i. names_at w2 i = names_at w i \<union> (\<Union>x \<in> set (x # xs). A x i)"
    using 1(3) 2(3) by auto
  ultimately show ?case by blast
qed

lemma put_names_step:
  assumes "x < 38" and "length (bins w) = 38" and "N (name oc)" and "G oc"
  shows "add_outcome x oc w = Inr (put x oc w) \<and> extends N G w (put x oc w)
       \<and> length (bins (put x oc w)) = 38
       \<and> (\<forall>i. names_at (put x oc w) i = names_at w i \<union> (if i = x then {name oc} else {}))"
  using assms by (auto simp: add_outcome_put extends_put names_at_put)

text \<open>The even-money stage.\<close>

lemma even_money_names_six: "even_money_names n \<subseteq> six"
  by (auto simp: even_money_names_def six_def)

lemma even_money_step:
  assumes x: "x \<in> set [1..<37]" and len: "length (bins w) = 38"
  shows "\<exists>w'. and_then
             (and_then
                (if x \<ge> 1 \<and> x < 19 then add_outcome x (Outcome ''low'' 1) w
                 else add_outcome x (Outcome ''high'' 1) w)
                (\<lambda>w1. if x mod 2 = 0 then add_outcome x (Outcome ''even'' 1) w1
                       else add_outcome x (Outcome ''odd'' 1) w1))
             (\<lambda>w2. if x \<in> set red_bins then add_outcome x (Outcome ''red'' 1) w2
                    else add_outcome x (Outcome ''black'' 1) w2) = Inr w'
         \<and> extends (\<lambda>s. s \<in> six) plain w w'
         \<and> (\<forall>i. names_at w' i = names_at w i \<union> (if i = x then even_money_names x else {}))"
proof -
  from x have x38: "x < 38" and x1: "1 \<le> x" and x36: "x \<le> 36" by simp_all
  let ?a = "Outcome (if x < 19 then ''low'' else ''high'') 1"
  let ?b = "Outcome (if x mod 2 = 0 then ''even'' else ''odd'') 1"
  let ?c = "Outcome (if x \<in> set red_bins then ''red'' else ''black'') 1"
  let ?N = "\<lambda>s. s \<in> six"
  have na: "?N (name ?a)" and nb: "?N (name ?b)" and nc: "?N (name ?c)"
    by (simp_all add: six_def)
  have pa: "plain ?a" and pb: "plain ?b" and pc: "plain ?c" by simp_all
  note 1 = put_names_step [OF x38 len, of ?N ?a plain, OF na pa]
  note 2 = put_names_step [OF x38 _, of "put x ?a w" ?N ?b plain, OF _ nb pb]
  note 3 = put_names_step [OF x38 _, of "put x ?b (put x ?a w)" ?N ?c plain, OF _ nc pc]
  from 1 have l1: "length (bins (put x ?a w)) = 38" by simp
  from 2 [OF l1] have l2: "length (bins (put x ?b (put x ?a w))) = 38" by simp
  let ?w3 = "put x ?c (put x ?b (put x ?a w))"
  have e: "extends ?N plain w ?w3"
    using 1 2 [OF l1] 3 [OF l2] by (blast intro: extends_trans)
  have n: "\<forall>i. names_at ?w3 i = names_at w i \<union> (if i = x then even_money_names x else {})"
    using 1 2 [OF l1] 3 [OF l2] x1 x36 by (auto simp: even_money_names_def)
  have r: "and_then
             (and_then
                (if x \<ge> 1 \<and> x < 19 then add_outcome x (Outcome ''low'' 1) w
                 else add_outcome x (Outcome ''high'' 1) w)
                (\<lambda>w1. if x mod 2 = 0 then add_outcome x (Outcome ''even'' 1) w1
                       else add_outcome x (Outcome ''odd'' 1) w1))
             (\<lambda>w2. if x \<in> set red_bins then add_outcome x (Outcome ''red'' 1) w2
                    else add_outcome x (Outcome ''black'' 1) w2) = Inr ?w3"
    using 1 2 [OF l1] 3 [OF l2] x1 by (auto simp: and_then_def)
  from r e n show ?thesis by blast
qed

lemma add_even_money_bets_names:
  assumes len: "length (bins w) = 38"
  shows "\<exists>w'. add_even_money_bets w = Inr w' \<and> extends (\<lambda>s. s \<in> six) plain w w'
           \<and> (\<forall>i. names_at w' i = names_at w i \<union> even_money_names i)"
proof -
  let ?A = "\<lambda>x i. if i = x then even_money_names x else {}"
  have u: "\<And>i. (\<Union>x \<in> set [1..<37]. ?A x i) = even_money_names i"
    by (auto simp: even_money_names_def)
  have "\<exists>w'. for_each [1..<37] (\<lambda>n w0.
           and_then
             (and_then
                (if n \<ge> 1 \<and> n < 19 then add_outcome n (Outcome ''low'' 1) w0
                 else add_outcome n (Outcome ''high'' 1) w0)
                (\<lambda>w1. if n mod 2 = 0 then add_outcome n (Outcome ''even'' 1) w1
                       else add_outcome n (Outcome ''odd'' 1) w1))
             (\<lambda>w2. if n \<in> set red_bins then add_outcome n (Outcome ''red'' 1) w2
                    else add_outcome n (Outcome ''black'' 1) w2)) w = Inr w'
         \<and> extends (\<lambda>s. s \<in> six) plain w w'
         \<and> (\<forall>i. names_at w' i = names_at w i \<union> (\<Union>x \<in> set [1..<37]. ?A x i))"
    by (rule for_each_names [where A = ?A, OF even_money_step len])
  then show ?thesis unfolding u by (simp add: add_even_money_bets_def Let_def)
qed



lemma str_0: "str 0 = ''0''"
  by (simp add: str.simps digit_def)

lemma growsE:
  assumes "grows N G f" and "length (bins w) = 38"
  obtains w' where "f w = Inr w'" "extends N G w w'" "length (bins w') = 38"
  using assms extends_length unfolding grows_def by blast

text \<open>The straight bets put a name into every bin.\<close>

lemma straight_step:
  assumes "x \<in> set xs" and "set xs \<subseteq> {..<38}" and "length (bins w) = 38"
    and "G (Outcome (str x) 35)"
  shows "\<exists>w'. add_outcome x (Outcome (str x) 35) w = Inr w' \<and> extends numbered G w w'
           \<and> (\<forall>i. names_at w' i = names_at w i \<union> (if i = x then {str x} else {}))"
proof -
  from assms have "x < 38" by auto
  from put_names_step [OF this assms(3), of numbered "Outcome (str x) 35" G] assms(4)
  show ?thesis by (auto simp: numbered_str)
qed

lemma straight_loop:
  assumes "set xs \<subseteq> {..<38}" and "length (bins w) = 38" and "\<And>n d. G (Outcome n d)"
  shows "\<exists>w'. for_each xs (\<lambda>n. add_outcome n (Outcome (str n) 35)) w = Inr w'
           \<and> extends numbered G w w' \<and> (\<forall>i \<in> set xs. str i \<in> names_at w' i)
           \<and> (\<forall>i. i \<notin> set xs \<longrightarrow> names_at w' i = names_at w i)"
proof -
  let ?A = "\<lambda>x i. if i = x then {str x} else {}"
  have "\<exists>w'. for_each xs (\<lambda>n. add_outcome n (Outcome (str n) 35)) w = Inr w'
           \<and> extends numbered G w w'
           \<and> (\<forall>i. names_at w' i = names_at w i \<union> (\<Union>x \<in> set xs. ?A x i))"
    by (rule for_each_names [where A = ?A]) (use assms straight_step in auto)
  then obtain w' where w': "for_each xs (\<lambda>n. add_outcome n (Outcome (str n) 35)) w = Inr w'"
    "extends numbered G w w'"
    "\<forall>i. names_at w' i = names_at w i \<union> (\<Union>x \<in> set xs. ?A x i)" by blast
  from w'(3) have "\<forall>i \<in> set xs. str i \<in> names_at w' i"
    and "\<forall>i. i \<notin> set xs \<longrightarrow> names_at w' i = names_at w i" by auto
  with w'(1,2) show ?thesis by blast
qed


lemma straight_names_extends: "straight_names w \<Longrightarrow> extends N G w w' \<Longrightarrow> straight_names w'"
  unfolding straight_names_def using extends_names_mono by blast

lemma add_straight_bets_names:
  assumes len: "length (bins w) = 38"
  shows "\<exists>w'. add_straight_bets BinBuilder w = Inr w' \<and> extends numbered plain w w'
           \<and> straight_names w'"
proof -
  have "set [0..<37] \<subseteq> {..<38::nat}" by auto
  from straight_loop [OF this len, of plain] plain_Outcome
  obtain w1 where 1: "for_each [0..<37] (\<lambda>n. add_outcome n (Outcome (str n) 35)) w = Inr w1"
    "extends numbered plain w w1" "\<forall>i \<in> set [0..<37]. str i \<in> names_at w1 i" by blast
  from 1(2) len have l1: "length (bins w1) = 38" by (rule extends_length)
  have n00: "numbered (name (Outcome ''00'' 35))" by (simp add: numbered_def)
  from put_names_step [OF _ l1, of 37 numbered "Outcome ''00'' 35" plain] n00
  have 2: "add_outcome 37 (Outcome ''00'' 35) w1 = Inr (put 37 (Outcome ''00'' 35) w1)"
    "extends numbered plain w1 (put 37 (Outcome ''00'' 35) w1)"
    "''00'' \<in> names_at (put 37 (Outcome ''00'' 35) w1) 37"
    by auto
  have "straight_names (put 37 (Outcome ''00'' 35) w1)"
    unfolding straight_names_def using 1(3) 2(2,3) extends_names_mono by auto
  moreover have "add_straight_bets BinBuilder w = Inr (put 37 (Outcome ''00'' 35) w1)"
    using 1(1) 2(1) by (simp add: add_straight_bets_def and_then_def)
  moreover have "extends numbered plain w (put 37 (Outcome ''00'' 35) w1)"
    using 1(2) 2(2) by (rule extends_trans)
  ultimately show ?thesis by blast
qed

lemma add_straight_bets_Euro_names:
  assumes len: "length (bins w) = 38"
  shows "\<exists>w'. add_straight_bets EuroBinBuilder w = Inr w' \<and> extends numbered (\<lambda>oc. True) w w'
           \<and> straight_names w'
           \<and> (names_at w 0 = {} \<longrightarrow> PrisonOutcome ''0'' 35 \<in> set (bins w' ! 0))"
proof -
  let ?G = "\<lambda>oc::Outcome. True"
  have "set [1..<37] \<subseteq> {..<38::nat}" by auto
  from straight_loop [OF this len, of ?G]
  obtain w1 where 1: "for_each [1..<37] (\<lambda>n. add_outcome n (Outcome (str n) 35)) w = Inr w1"
    "extends numbered ?G w w1" "\<forall>i \<in> set [1..<37]. str i \<in> names_at w1 i"
    "\<forall>i. i \<notin> set [1..<37] \<longrightarrow> names_at w1 i = names_at w i" by blast
  from 1(2) len have l1: "length (bins w1) = 38" by (rule extends_length)
  let ?w2 = "put 37 (Outcome ''00'' 35) w1"
  have n00: "numbered (name (Outcome ''00'' 35))" by (simp add: numbered_def)
  from put_names_step [OF _ l1, of 37 numbered "Outcome ''00'' 35" ?G] n00
  have 2: "add_outcome 37 (Outcome ''00'' 35) w1 = Inr ?w2"
    "extends numbered ?G w1 ?w2" "''00'' \<in> names_at ?w2 37" "length (bins ?w2) = 38"
    by auto
  let ?w3 = "put 0 (PrisonOutcome ''0'' 35) ?w2"
  have n0: "numbered (name (PrisonOutcome ''0'' 35))" by (simp add: numbered_def)
  from put_names_step [OF _ 2(4), of 0 numbered "PrisonOutcome ''0'' 35" ?G] n0
  have 3: "add_outcome 0 (PrisonOutcome ''0'' 35) ?w2 = Inr ?w3"
    "extends numbered ?G ?w2 ?w3" "''0'' \<in> names_at ?w3 0"
    by auto
  have e13: "extends numbered ?G w1 ?w3" using 2(2) 3(2) by (rule extends_trans)
  have "straight_names ?w3"
    unfolding straight_names_def
  proof (intro conjI allI impI)
    fix i :: nat assume "i < 37"
    show "str i \<in> names_at ?w3 i"
    proof (cases "i = 0")
      case True
      with 3(3) show ?thesis by (simp add: str_0)
    next
      case False
      with \<open>i < 37\<close> 1(3) have "str i \<in> names_at w1 i" by simp
      with e13 show ?thesis by (rule extends_names_mono)
    qed
  next
    from 3(2) 2(3) show "''00'' \<in> names_at ?w3 37" by (rule extends_names_mono)
  qed
  moreover have "names_at w 0 = {} \<longrightarrow> PrisonOutcome ''0'' 35 \<in> set (bins ?w3 ! 0)"
  proof
    assume "names_at w 0 = {}"
    with 1(4) have "names_at w1 0 = {}" by simp
    then have "names_at ?w2 0 = {}" by (simp add: names_at_put)
    then have "bins ?w2 ! 0 = []" by (simp add: names_at_def)
    with 2(4) show "PrisonOutcome ''0'' 35 \<in> set (bins ?w3 ! 0)"
      by (simp add: put_def set_add_def contains_def)
  qed
  moreover have "add_straight_bets EuroBinBuilder w = Inr ?w3"
    using 1(1) 2(1) 3(1) by (simp add: add_straight_bets_def and_then_def)
  moreover have "extends numbered ?G w ?w3"
    using 1(2) e13 by (rule extends_trans)
  ultimately show ?thesis by blast
qed



lemma grows_middle:
  "grows numbered plain (\<lambda>w. and_then (and_then (and_then (and_then (and_then
       (add_split_bets w) add_street_bets) add_corner_bets) add_line_bets)
       add_dozen_bets) add_column_bets)"
  by (intro grows_and_then [OF _ _ refl] grows_add_split_bets grows_add_street_bets
      grows_add_corner_bets grows_add_line_bets grows_add_dozen_bets grows_add_column_bets)

lemma base_build_bins_split:
  "base_build_bins bb w =
     and_then (and_then (and_then (add_straight_bets bb w)
       (\<lambda>w. and_then (and_then (and_then (and_then (and_then
          (add_split_bets w) add_street_bets) add_corner_bets) add_line_bets)
          add_dozen_bets) add_column_bets))
       add_even_money_bets) (add_five_bets bb)"
  by (cases "add_straight_bets bb w") (simp_all add: base_build_bins_def and_then_def)

lemma base_build_bins_names:
  assumes len: "length (bins w) = 38"
    and straight: "\<exists>w'. add_straight_bets bb w = Inr w' \<and> extends numbered G w w'
           \<and> straight_names w' \<and> (Q \<longrightarrow> oc \<in> set (bins w' ! k))"
    and five: "grows numbered G (add_five_bets bb)"
    and G: "\<And>oc. plain oc \<Longrightarrow> G oc"
  shows "\<exists>w'. base_build_bins bb w = Inr w'
           \<and> extends (\<lambda>s. numbered s \<or> s \<in> six) G w w'
           \<and> (\<forall>i. names_at w' i \<inter> six = names_at w i \<inter> six \<union> even_money_names i)
           \<and> straight_names w' \<and> (Q \<longrightarrow> oc \<in> set (bins w' ! k))"
proof -
  let ?N = "\<lambda>s. numbered s \<or> s \<in> six"
  from straight obtain w1 where 1: "add_straight_bets bb w = Inr w1" "extends numbered G w w1"
    "straight_names w1" "Q \<longrightarrow> oc \<in> set (bins w1 ! k)" by blast
  from 1(2) len have l1: "length (bins w1) = 38" by (rule extends_length)
  from grows_middle l1 obtain w2 where 2:
    "and_then (and_then (and_then (and_then (and_then
       (add_split_bets w1) add_street_bets) add_corner_bets) add_line_bets)
       add_dozen_bets) add_column_bets = Inr w2"
    "extends numbered plain w1 w2" "length (bins w2) = 38"
    by (rule growsE)
  from add_even_money_bets_names [OF 2(3)] obtain w3 where 3:
    "add_even_money_bets w2 = Inr w3" "extends (\<lambda>s. s \<in> six) plain w2 w3"
    "\<forall>i. names_at w3 i = names_at w2 i \<union> even_money_names i" by blast
  from 3(2) 2(3) have l3: "length (bins w3) = 38" by (rule extends_length)
  from five l3 obtain w4 where 4: "add_five_bets bb w3 = Inr w4" "extends numbered G w3 w4"
    by (rule growsE)
  have r: "base_build_bins bb w = Inr w4"
    using 1(1) 2(1) 3(1) 4(1) by (simp add: base_build_bins_split and_then_def)
  have e1: "extends ?N G w w1" using 1(2) by (rule extends_mono) simp_all
  have e2: "extends ?N G w1 w2" using 2(2) by (rule extends_mono) (simp_all add: G)
  have e3: "extends ?N G w2 w3" using 3(2) by (rule extends_mono) (simp_all add: G)
  have e4: "extends ?N G w3 w4" using 4(2) by (rule extends_mono) simp_all
  have e: "extends ?N G w w4"
    using e1 e2 e3 e4 by (blast intro: extends_trans)
  have s: "straight_names w4"
    using 1(3) e2 e3 e4 by (blast intro: straight_names_extends)
  have q: "Q \<longrightarrow> oc \<in> set (bins w4 ! k)"
    using 1(4) e2 e3 e4 by (blast intro: extends_elems)
  have n: "\<forall>i. names_at w4 i \<inter> six = names_at w i \<inter> six \<union> even_money_names i"
  proof
    fix i
    have "names_at w4 i \<inter> six = names_at w3 i \<inter> six"
      using 4(2) by (rule extends_numbered_six)
    also have "\<dots> = names_at w2 i \<inter> six \<union> even_money_names i"
      using 3(3) even_money_names_six [of i] by auto
    also have "names_at w2 i \<inter> six = names_at w1 i \<inter> six"
      using 2(2) by (rule extends_numbered_six)
    also have "\<dots> = names_at w i \<inter> six"
      using 1(2) by (rule extends_numbered_six)
    finally show "names_at w4 i \<inter> six = names_at w i \<inter> six \<union> even_money_names i" .
  qed
  from r e s n q show ?thesis by blast
qed

lemma build_bins_BinBuilder:
  assumes len: "length (bins w) = 38"
  shows "\<exists>w'. build_bins BinBuilder w = Inr w'
           \<and> extends (\<lambda>s. numbered s \<or> s \<in> six) plain w w'
           \<and> (\<forall>i. names_at w' i \<inter> six = names_at w i \<inter> six \<union> even_money_names i)
           \<and> straight_names w'"
proof -
  from add_straight_bets_names [OF len]
  have "\<exists>w'. add_straight_bets BinBuilder w = Inr w' \<and> extends numbered plain w w'
           \<and> straight_names w' \<and> (False \<longrightarrow> Outcome [] 0 \<in> set (bins w' ! 0))"
    by blast
  from base_build_bins_names [OF len this grows_add_five_bets]
  show ?thesis by (simp add: build_bins_def)
qed

lemma build_bins_EuroBinBuilder:
  assumes len: "length (bins w) = 38"
  shows "\<exists>w'. build_bins EuroBinBuilder w = Inr w'
           \<and> extends (\<lambda>s. numbered s \<or> s \<in> six) (\<lambda>oc. True) w w'
           \<and> (\<forall>i. names_at w' i \<inter> six = names_at w i \<inter> six \<union> even_money_names i)
           \<and> straight_names w'
           \<and> (names_at w 0 = {} \<longrightarrow> PrisonOutcome ''0'' 35 \<in> set (bins w' ! 0))"
proof -
  let ?N = "\<lambda>s. numbered s \<or> s \<in> six"
  let ?G = "\<lambda>oc::Outcome. True"
  from add_straight_bets_Euro_names [OF len]
  have "\<exists>w'. add_straight_bets EuroBinBuilder w = Inr w' \<and> extends numbered ?G w w'
           \<and> straight_names w'
           \<and> (names_at w 0 = {} \<longrightarrow> PrisonOutcome ''0'' 35 \<in> set (bins w' ! 0))"
    by blast
  from base_build_bins_names [OF len this grows_add_five_bets_Euro]
  obtain w1 where 1: "base_build_bins EuroBinBuilder w = Inr w1" "extends ?N ?G w w1"
    "\<forall>i. names_at w1 i \<inter> six = names_at w i \<inter> six \<union> even_money_names i"
    "straight_names w1" "names_at w 0 = {} \<longrightarrow> PrisonOutcome ''0'' 35 \<in> set (bins w1 ! 0)"
    by auto
  from 1(2) len have l1: "length (bins w1) = 38" by (rule extends_length)
  from grows_add_four_bets l1 obtain w2 where 2: "add_four_bets w1 = Inr w2"
    "extends numbered plain w1 w2" by (rule growsE)
  have "build_bins EuroBinBuilder w = Inr w2"
    using 1(1) 2(1) by (simp add: build_bins_def and_then_def)
  moreover have e2: "extends ?N ?G w1 w2" using 2(2) by (rule extends_mono) simp_all
  with 1(2) have "extends ?N ?G w w2" by (rule extends_trans)
  moreover have "\<forall>i. names_at w2 i \<inter> six = names_at w i \<inter> six \<union> even_money_names i"
    using 1(3) extends_numbered_six [OF 2(2)] by simp
  moreover have "straight_names w2" using 1(4) e2 by (rule straight_names_extends)
  moreover have "names_at w 0 = {} \<longrightarrow> PrisonOutcome ''0'' 35 \<in> set (bins w2 ! 0)"
    using 1(5) e2 by (blast intro: extends_elems)
  ultimately show ?thesis by blast
qed

lemma names_at_empty_wheel: "i < 38 \<Longrightarrow> names_at (empty_wheel r) i = {}"
  by (simp add: names_at_def empty_wheel_def)

lemma Wheel_init_unfold:
  "Wheel_init seeded fresh seed rules =
     (if rules = ''american''
      then build_bins BinBuilder (empty_wheel (if truthy seed then seeded (the seed) else fresh))
      else if rules = ''european''
      then build_bins EuroBinBuilder (empty_wheel (if truthy seed then seeded (the seed) else fresh))
      else Inr (empty_wheel (if truthy seed then seeded (the seed) else fresh)))"
  by (simp add: Wheel_init_def empty_wheel_def Let_def)

lemma built_wheel:
  assumes "rules = ''american'' \<or> rules = ''european''"
  shows "\<exists>w. Wheel_init seeded fresh seed rules = Inr w \<and> length (bins w) = 38
      \<and> wrng w = (if truthy seed then seeded (the seed) else fresh)
      \<and> (\<forall>i < 38. names_at w i \<inter> six = even_money_names i)
      \<and> straight_names w
      \<and> (rules = ''american'' \<longrightarrow> (\<forall>oc \<in> set (all_outcomes w). plain oc))
      \<and> (rules = ''european'' \<longrightarrow> PrisonOutcome ''0'' 35 \<in> set (bins w ! 0))"
proof -
  let ?r = "if truthy seed then seeded (the seed) else fresh"
  let ?N = "\<lambda>s. numbered s \<or> s \<in> six"
  have len: "length (bins (empty_wheel ?r)) = 38" by (simp add: empty_wheel_def)
  have "\<exists>w G. Wheel_init seeded fresh seed rules = Inr w \<and> extends ?N G (empty_wheel ?r) w
      \<and> (rules = ''american'' \<longrightarrow> G = plain)
      \<and> (\<forall>i. names_at w i \<inter> six = names_at (empty_wheel ?r) i \<inter> six \<union> even_money_names i)
      \<and> straight_names w
      \<and> (rules = ''european'' \<longrightarrow> PrisonOutcome ''0'' 35 \<in> set (bins w ! 0))"
  proof (cases "rules = ''american''")
    case True
    with build_bins_BinBuilder [OF len] show ?thesis
      by (auto simp: Wheel_init_unfold)
  next
    case False
    with assms have "rules = ''european''" by simp
    with build_bins_EuroBinBuilder [OF len] names_at_empty_wheel [of 0 ?r] show ?thesis
      by (auto simp: Wheel_init_unfold)
  qed
  then obtain w G where w: "Wheel_init seeded fresh seed rules = Inr w"
    "extends ?N G (empty_wheel ?r) w" "rules = ''american'' \<longrightarrow> G = plain"
    "\<forall>i. names_at w i \<inter> six = names_at (empty_wheel ?r) i \<inter> six \<union> even_money_names i"
    "straight_names w" "rules = ''european'' \<longrightarrow> PrisonOutcome ''0'' 35 \<in> set (bins w ! 0)"
    by blast
  from w(2) have "length (bins w) = 38" "wrng w = ?r"
    "\<forall>oc \<in> set (all_outcomes w). oc \<in> set (all_outcomes (empty_wheel ?r)) \<or> G oc"
    by (simp_all add: extends_def empty_wheel_def)
  moreover from w(4) have "\<forall>i < 38. names_at w i \<inter> six = even_money_names i"
    by (simp add: names_at_empty_wheel)
  moreover have "\<forall>oc. oc \<notin> set (all_outcomes (empty_wheel ?r))"
    by (simp add: empty_wheel_def)
  ultimately show ?thesis using w(1,3,5,6) by auto
qed



lemma six_member:
  assumes "names_at w n \<inter> six = even_money_names n" and "nm \<in> six"
  shows "contains (bins w ! n) (Outcome nm d) \<longleftrightarrow> nm \<in> even_money_names n"
proof -
  have "contains (bins w ! n) (Outcome nm d) \<longleftrightarrow> nm \<in> names_at w n"
    by (simp add: contains_iff names_at_def)
  with assms show ?thesis by blast
qed



lemma straight_names_nonempty:
  assumes "straight_names w" and "i < 38"
  shows "bins w ! i \<noteq> []"
proof -
  have "names_at w i \<noteq> {}"
  proof (cases "i = 37")
    case True
    with assms(1) show ?thesis unfolding straight_names_def by blast
  next
    case False
    with assms(2) have "i < 37" by simp
    with assms(1) have "str i \<in> names_at w i" unfolding straight_names_def by blast
    then show ?thesis by blast
  qed
  then show ?thesis by (auto simp: names_at_def)
qed

lemma Wheel_init_other:
  assumes "rules \<noteq> ''american''" and "rules \<noteq> ''european''"
  shows "Wheel_init seeded fresh seed rules =
           Inr (empty_wheel (if truthy seed then seeded (the seed) else fresh))"
  using assms by (simp add: Wheel_init_unfold)

lemma Wheel_init_any:
  "\<exists>w. Wheel_init seeded fresh seed rules = Inr w \<and> length (bins w) = 38
      \<and> wrng w = (if truthy seed then seeded (the seed) else fresh)"
proof (cases "rules = ''american'' \<or> rules = ''european''")
  case True
  from built_wheel [OF this, of seeded fresh seed] show ?thesis by blast
next
  case False
  then show ?thesis by (simp add: Wheel_init_other empty_wheel_def)
qed

lemma Wheel_init_seeded:
  "truthy seed \<Longrightarrow> Wheel_init seeded fresh seed rules = Wheel_init seeded fresh' seed rules"
  by (simp add: Wheel_init_unfold)

lemma wheel_next_first:
  "length (bins w) = 38 \<Longrightarrow>
     fst (wheel_next w) = Inr (bins w ! (draws (wrng w) (pos (wrng w)) mod 38))"
  by (simp add: wheel_next_def randint_def Let_def)


section \<open>Rounds that cannot raise\<close>


lemma resolve_ok:
  assumes "\<forall>b \<in> set bs. \<forall>oc. outcome b = Some oc \<longrightarrow> plain oc" and "stake p \<noteq> None"
  shows "\<exists>vs. fst (resolve ws bs outs p) = Inr vs"
  using assms
proof (induction bs arbitrary: outs p)
  case Nil
  then show ?case by simp
next
  case (Cons b bs)
  obtain r1 p1 where s: "(if member_of (outcome b) ws then win b p else lose b p) = (r1, p1)"
    by (cases "if member_of (outcome b) ws then win b p else lose b p") auto
  from Cons.prems have pb: "\<forall>oc. outcome b = Some oc \<longrightarrow> plain oc" by simp
  have "\<exists>v. r1 = Inr v \<and> stake p1 \<noteq> None"
  proof (cases "member_of (outcome b) ws")
    case True
    then obtain oc where "outcome b = Some oc" by (auto simp: member_of_def split: option.splits)
    with s True Cons.prems(2) show ?thesis
      by (auto simp: win_def Martingale_win_def Player_win_def win_amount_def Let_def
          split: kind.splits)
  next
    case False
    with s pb Cons.prems(2) show ?thesis
      by (auto simp: lose_def Martingale_lose_def Player_lose_def plain_def
          split: kind.splits option.splits Outcome.splits)
  qed
  then obtain v where v: "r1 = Inr v" "stake p1 \<noteq> None" by blast
  from Cons.prems(1) have "\<forall>b \<in> set bs. \<forall>oc. outcome b = Some oc \<longrightarrow> plain oc" by simp
  from Cons.IH [OF this v(2), of "outs @ [v]"] s v show ?case by simp
qed

lemma Game_cycle_ok:
  assumes pl: "playing p" and pb: "place_bets t p = (Inr u, t1, p1)"
    and len: "length (bins (wheel t)) = 38" and st: "stake p \<noteq> None"
    and bs: "\<forall>b \<in> set (bets t1). \<forall>oc. outcome b = Some oc \<longrightarrow> plain oc"
  shows "\<exists>res. fst (Game_cycle t p) = Inr res"
proof -
  from place_bets_frame [OF pb] st len
  have f: "wheel t1 = wheel t" "stake p1 \<noteq> None" by simp_all
  from wheel_next_ok [of "wheel t1"] f(1) len
  obtain ws where ws: "fst (wheel_next (wheel t1)) = Inr ws" by auto
  then obtain w2 where w2: "wheel_next (wheel t1) = (Inr ws, w2)"
    by (cases "wheel_next (wheel t1)") auto
  from winners_frame [of ws p1] f(2) have "stake (winners ws p1) \<noteq> None" by simp
  from resolve_ok [OF bs this, of ws "[]"]
  obtain vs where "fst (resolve ws (bets t1) [] (winners ws p1)) = Inr vs" by blast
  then obtain p3 where r: "resolve ws (bets t1) [] (winners ws p1) = (Inr vs, p3)"
    by (cases "resolve ws (bets t1) [] (winners ws p1)") auto
  from pl pb w2 r show ?thesis
    by (simp add: Game_cycle_def Let_def)
qed

text \<open>Passenger57 never stops: each round starts and ends in the same kind of state.\<close>

lemma Passenger57_place_bets_ok:
  assumes "kind p = Passenger57" and "bets t = []" and "10 \<le> limit t"
  shows "place_bets t p = (Inr (), t\<lparr>bets := [\<lparr>amount = 10, outcome = black p\<rparr>]\<rparr>, p)"
  using assms
  by (simp add: place_bets_def Passenger57_place_bets_def place_bet_def is_valid_def Let_def)


lemma Passenger57_cycle:
  assumes "P57_inv t p"
  shows "\<exists>res t' p'. Game_cycle t p = (Inr res, t', p') \<and> P57_inv t' p'"
proof -
  from assms have a: "kind p = Passenger57" "bets t = []" "10 \<le> limit t"
    "length (bins (wheel t)) = 38" "stake p \<noteq> None" "\<forall>oc. black p = Some oc \<longrightarrow> plain oc"
    by (simp_all add: P57_inv_def)
  have pl: "playing p" using a(1) by (simp add: playing_def)
  note pb = Passenger57_place_bets_ok [OF a(1,2,3)]
  have "\<exists>res. fst (Game_cycle t p) = Inr res"
    by (rule Game_cycle_ok [OF pl pb a(4,5)]) (use a(6) in simp)
  then obtain res t' p' where c: "Game_cycle t p = (Inr res, t', p')"
    by (cases "Game_cycle t p") auto
  from Game_cycle_frame [OF c] Game_cycle_finished [OF c] a
  have "P57_inv t' p'" by (simp add: P57_inv_def)
  with c show ?thesis by blast
qed

lemma Passenger57_loop_None:
  assumes "P57_inv t p"
  shows "session_loop t p stakes d = None"
proof (rule ccontr)
  assume "session_loop t p stakes d \<noteq> None"
  then obtain y where ret: "session_loop t p stakes d = Some y" by auto
  let ?I = "\<lambda>(t0::Table) (p0::Player) (s0::int option list) (d0::nat). P57_inv t0 p0"
  have inv: "(\<forall>e t1 p1. y = (Inl e, t1, p1) \<longrightarrow>
            (\<exists>t0 p0 s0 d0. ?I t0 p0 s0 d0 \<and> playing p0 \<and> Game_cycle t0 p0 = (Inl e, t1, p1)))
       \<and> (\<forall>sts d' t1 p1. y = (Inr (sts, d'), t1, p1) \<longrightarrow> ?I t1 p1 sts d' \<and> \<not> playing p1)"
  proof (rule session_loop_invariant [where I = ?I, OF ret])
    from assms show "P57_inv t p" .
  next
    fix t0 p0 s0 d0 res t1 p1
    assume "P57_inv t0 p0" and "Game_cycle t0 p0 = (Inr res, t1, p1)"
    with Passenger57_cycle [of t0 p0] show "P57_inv t1 p1" by auto
  qed
  obtain r t1 p1 where y: "y = (r, t1, p1)" by (cases y) auto
  show False
  proof (cases r)
    case (Inl e)
    with inv y obtain t0 p0 where "P57_inv t0 p0" "Game_cycle t0 p0 = (Inl e, t1, p1)" by blast
    with Passenger57_cycle [of t0 p0] show False by auto
  next
    case (Inr v)
    with inv y have "P57_inv t1 p1 \<and> \<not> playing p1" by (cases v) auto
    then show False by (auto simp: P57_inv_def playing_def)
  qed
qed



lemma get_outcome_mem: "get_outcome w nm = Some oc \<Longrightarrow> oc \<in> set (all_outcomes w) \<and> name oc = nm"
proof -
  assume a: "get_outcome w nm = Some oc"
  then obtain ys where "filter (\<lambda>oc. name oc = nm) (all_outcomes w) = oc # ys"
    by (auto simp: get_outcome_def split: list.splits)
  then have "oc \<in> set (filter (\<lambda>oc. name oc = nm) (all_outcomes w))" by simp
  then show ?thesis by simp
qed

lemma default_wheel_props:
  "Wheel_init zero_seeded zero_rng None ''american'' = Inr default_wheel
   \<and> length (bins default_wheel) = 38 \<and> black_plain default_wheel"
proof -
  have am: "''american'' = ''american'' \<or> ''american'' = ''european''" by simp
  from built_wheel [OF am, of zero_seeded zero_rng None]
  obtain w where w: "Wheel_init zero_seeded zero_rng None ''american'' = Inr w"
    "length (bins w) = 38" "\<forall>oc \<in> set (all_outcomes w). plain oc" by auto
  from w(1) have d: "default_wheel = w" by (simp add: default_wheel_def)
  from w(3) have "black_plain w"
    unfolding black_plain_def using get_outcome_mem by blast
  with w d show ?thesis by simp
qed

lemma Player_init_Passenger57:
  assumes "kind p = Passenger57" and "bets t = []" and "10 \<le> limit t"
    and "length (bins (wheel t)) = 38" and "black_plain (wheel t)"
  shows "P57_inv t (set_stake s (set_rounds r (Player_init fresh t p)))"
  using assms
  by (simp add: P57_inv_def set_stake_def set_rounds_def Player_init_def black_plain_def Let_def)

lemma Passenger57_session_None:
  assumes "kind (sim_player sim) = Passenger57" and "bets (sim_table sim) = []"
    and "10 \<le> limit (sim_table sim)" and "length (bins (wheel (sim_table sim))) = 38"
    and "black_plain (wheel (sim_table sim))"
  shows "session fresh sim = None"
proof -
  from Player_init_Passenger57 [OF assms]
  have "P57_inv (sim_table sim) (set_stake (init_stake sim) (set_rounds (init_duration sim)
          (Player_init fresh (sim_table sim) (sim_player sim))))" .
  from Passenger57_loop_None [OF this] show ?thesis
    by (simp add: session_def Let_def)
qed

lemma Passenger57_gather_None:
  assumes "kind (sim_player sim) = Passenger57" and "bets (sim_table sim) = []"
    and "10 \<le> limit (sim_table sim)" and "length (bins (wheel (sim_table sim))) = 38"
    and "black_plain (wheel (sim_table sim))" and "0 < samples sim"
  shows "gather fresh sim = None"
proof -
  from assms(6) obtain n where n: "samples sim = Suc n" by (cases "samples sim") auto
  from Passenger57_session_None [OF assms(1-5), of "fresh 0"] n show ?thesis
    by (simp add: gather_def)
qed


section \<open>How long a session lasts\<close>


lemma playing_rounds:
  assumes "playing p" and "kind p \<noteq> Passenger57"
  obtains r s where "rounds p = Some r" "0 < r" "stake p = Some s" "0 < s"
  using assms
  by (auto simp: playing_def Player_playing_def split: kind.splits option.splits if_splits)

lemma rounds_left_step:
  assumes pl: "playing p" and k: "kind p \<noteq> Passenger57"
    and c: "Game_cycle t p = (Inr res, t', p')"
  shows "Suc (rounds_left p') = rounds_left p"
proof -
  from pl k obtain r s where r: "rounds p = Some r" "0 < r" by (rule playing_rounds)
  with Game_cycle_finished [OF c] have "rounds p' = Some (r - 1)" by (simp add: truthy_def)
  with r show ?thesis by (simp add: rounds_left_def)
qed

lemma session_loop_rounds:
  assumes k: "kind p \<noteq> Passenger57"
    and ret: "session_loop t p stakes d = Some (Inr (sts, d'), t', p')"
  shows "d' \<le> d + rounds_left p"
proof -
  let ?I = "\<lambda>(t0::Table) (p0::Player) (s0::int option list) (d0::nat).
              kind p0 \<noteq> Passenger57 \<and> d0 + rounds_left p0 \<le> d + rounds_left p"
  let ?y = "(Inr (sts, d'), t', p') :: (error + int option list \<times> nat) \<times> Table \<times> Player"
  have "(\<forall>e t1 p1. ?y = (Inl e, t1, p1) \<longrightarrow>
            (\<exists>t0 p0 s0 d0. ?I t0 p0 s0 d0 \<and> playing p0 \<and> Game_cycle t0 p0 = (Inl e, t1, p1)))
       \<and> (\<forall>sts1 d1 t1 p1. ?y = (Inr (sts1, d1), t1, p1) \<longrightarrow> ?I t1 p1 sts1 d1 \<and> \<not> playing p1)"
  proof (rule session_loop_invariant [where I = ?I, OF ret])
    from k show "kind p \<noteq> Passenger57 \<and> d + rounds_left p \<le> d + rounds_left p" by simp
  next
    fix t0 p0 s0 d0 res t1 p1
    assume i: "kind p0 \<noteq> Passenger57 \<and> d0 + rounds_left p0 \<le> d + rounds_left p"
      and pl: "playing p0" and c: "Game_cycle t0 p0 = (Inr res, t1, p1)"
    from rounds_left_step [OF pl _ c] i Game_cycle_frame [OF c]
    show "kind p1 \<noteq> Passenger57 \<and> d0 + 1 + rounds_left p1 \<le> d + rounds_left p" by simp
  qed
  then show ?thesis by simp
qed

text \<open>Martingale and SevenReds: no round of a session raises.\<close>

lemma Martingale_place_bets_ok:
  assumes k: "kind p = Martingale \<or> kind p = SevenReds" and b: "bets t = []"
    and s: "stake p = Some s"
  shows "\<exists>t1 p1. place_bets t p = (Inr (), t1, p1) \<and> (\<forall>b \<in> set (bets t1). outcome b = black p)"
proof (cases "place_bets t p = Martingale_place_bets t p")
  case True
  with b show ?thesis
    by (simp add: Martingale_place_bets_Some [OF s] place_bet_def is_valid_def Let_def)
next
  case False
  with k have "place_bets t p = (Inr (), t, p)"
    by (auto simp: place_bets_def SevenReds_place_bets_def Let_def split: if_splits)
  with b show ?thesis by simp
qed

lemma Martingale_cycle:
  assumes i: "Mart_inv t p" and pl: "playing p"
  shows "\<exists>res t' p'. Game_cycle t p = (Inr res, t', p') \<and> Mart_inv t' p'"
proof -
  from i have a: "kind p = Martingale \<or> kind p = SevenReds" "bets t = []"
    "length (bins (wheel t)) = 38" "stake p \<noteq> None" "\<forall>oc. black p = Some oc \<longrightarrow> plain oc"
    by (simp_all add: Mart_inv_def)
  from a(4) obtain s where s: "stake p = Some s" by auto
  from Martingale_place_bets_ok [OF a(1,2) s]
  obtain t1 p1 where pb: "place_bets t p = (Inr (), t1, p1)"
    "\<forall>b \<in> set (bets t1). outcome b = black p" by blast
  have "\<exists>res. fst (Game_cycle t p) = Inr res"
    by (rule Game_cycle_ok [OF pl pb(1) a(3,4)]) (use pb(2) a(5) in auto)
  then obtain res t' p' where c: "Game_cycle t p = (Inr res, t', p')"
    by (cases "Game_cycle t p") auto
  from Game_cycle_frame [OF c] Game_cycle_finished [OF c] a
  have "Mart_inv t' p'" by (auto simp: Mart_inv_def)
  with c show ?thesis by blast
qed

lemma fold_max_ge: "(a::int) \<le> fold max xs a"
proof (induction xs arbitrary: a)
  case Nil
  show ?case by simp
next
  case (Cons x xs)
  have "a \<le> max x a" by simp
  also have "\<dots> \<le> fold max xs (max x a)" by (rule Cons.IH)
  finally show ?case by simp
qed

lemma max_stakes_ok:
  assumes "sts \<noteq> []" and "hd sts = Some s0" and "None \<notin> set sts"
  shows "\<exists>m. max_stakes sts = Inr (Some m) \<and> s0 \<le> m"
proof (cases sts)
  case Nil
  with assms(1) show ?thesis by simp
next
  case (Cons x ys)
  with assms(2) have x: "x = Some s0" by simp
  show ?thesis
  proof (cases ys)
    case Nil
    with Cons x show ?thesis by (simp add: max_stakes_def)
  next
    case (Cons y zs)
    with \<open>sts = x # ys\<close> x assms(3) fold_max_ge [of s0 "map the ys"] show ?thesis
      by (auto simp: max_stakes_def)
  qed
qed

lemma Martingale_loop_returns:
  assumes i: "Mart_inv t p" and st: "stakes \<noteq> []" "hd stakes = Some s0" "None \<notin> set stakes"
  shows "\<exists>sts d' t' p'. session_loop t p stakes d = Some (Inr (sts, d'), t', p')
           \<and> Mart_inv t' p' \<and> kind p' = kind p \<and> limit t' = limit t
           \<and> bins (wheel t') = bins (wheel t) \<and> all_outcomes (wheel t') = all_outcomes (wheel t)
           \<and> d' \<le> d + rounds_left p
           \<and> sts \<noteq> [] \<and> hd sts = Some s0 \<and> None \<notin> set sts"
proof -
  from i have k: "kind p \<noteq> Passenger57" by (auto simp: Mart_inv_def)
  from session_loop_terminates [OF k] obtain y where ret: "session_loop t p stakes d = Some y"
    by blast
  let ?I = "\<lambda>(t0::Table) (p0::Player) (s0'::int option list) (d0::nat).
              Mart_inv t0 p0 \<and> kind p0 = kind p \<and> limit t0 = limit t
              \<and> bins (wheel t0) = bins (wheel t)
              \<and> all_outcomes (wheel t0) = all_outcomes (wheel t)
              \<and> s0' \<noteq> [] \<and> hd s0' = Some s0 \<and> None \<notin> set s0'"
  have inv: "(\<forall>e t1 p1. y = (Inl e, t1, p1) \<longrightarrow>
            (\<exists>t0 p0 s0 d0. ?I t0 p0 s0 d0 \<and> playing p0 \<and> Game_cycle t0 p0 = (Inl e, t1, p1)))
       \<and> (\<forall>sts1 d1 t1 p1. y = (Inr (sts1, d1), t1, p1) \<longrightarrow> ?I t1 p1 sts1 d1 \<and> \<not> playing p1)"
  proof (rule session_loop_invariant [where I = ?I, OF ret])
    from i st show "Mart_inv t p \<and> kind p = kind p \<and> limit t = limit t
              \<and> bins (wheel t) = bins (wheel t)
              \<and> all_outcomes (wheel t) = all_outcomes (wheel t)
              \<and> stakes \<noteq> [] \<and> hd stakes = Some s0 \<and> None \<notin> set stakes" by simp
  next
    fix t0 p0 s1 d0 res t1 p1
    assume a: "Mart_inv t0 p0 \<and> kind p0 = kind p \<and> limit t0 = limit t
              \<and> bins (wheel t0) = bins (wheel t)
              \<and> all_outcomes (wheel t0) = all_outcomes (wheel t)
              \<and> s1 \<noteq> [] \<and> hd s1 = Some s0 \<and> None \<notin> set s1"
      and pl: "playing p0" and c: "Game_cycle t0 p0 = (Inr res, t1, p1)"
    from a pl Martingale_cycle [of t0 p0] c have m: "Mart_inv t1 p1" by auto
    then have "stake p1 \<noteq> None" by (simp add: Mart_inv_def)
    with a m Game_cycle_frame [OF c]
    show "Mart_inv t1 p1 \<and> kind p1 = kind p \<and> limit t1 = limit t
              \<and> bins (wheel t1) = bins (wheel t)
              \<and> all_outcomes (wheel t1) = all_outcomes (wheel t)
              \<and> s1 @ [stake p1] \<noteq> [] \<and> hd (s1 @ [stake p1]) = Some s0
              \<and> None \<notin> set (s1 @ [stake p1])"
      by auto
  qed
  obtain r t1 p1 where y: "y = (r, t1, p1)" by (cases y) auto
  show ?thesis
  proof (cases r)
    case (Inl e)
    with inv y obtain t0 p0 where "Mart_inv t0 p0" "playing p0"
      "Game_cycle t0 p0 = (Inl e, t1, p1)" by blast
    with Martingale_cycle [of t0 p0] show ?thesis by auto
  next
    case (Inr v)
    obtain sts d' where v: "v = (sts, d')" by (cases v) auto
    with Inr y ret have ret': "session_loop t p stakes d = Some (Inr (sts, d'), t1, p1)" by simp
    from inv y Inr v have "?I t1 p1 sts d'" by blast
    with ret' session_loop_rounds [OF k ret'] show ?thesis by blast
  qed
qed



lemma black_plain_cong: "all_outcomes w' = all_outcomes w \<Longrightarrow> black_plain w' = black_plain w"
  by (simp add: black_plain_def get_outcome_def)

lemma Player_init_Martingale:
  assumes "kind p = Martingale \<or> kind p = SevenReds" and "bets t = []"
    and "length (bins (wheel t)) = 38" and "black_plain (wheel t)"
  shows "Mart_inv t (set_stake s (set_rounds r (Player_init fresh t p)))
       \<and> kind (set_stake s (set_rounds r (Player_init fresh t p))) = kind p
       \<and> rounds_left (set_stake s (set_rounds r (Player_init fresh t p))) = nat r"
  using assms
  by (auto simp: Mart_inv_def set_stake_def set_rounds_def Player_init_def black_plain_def
      rounds_left_def Let_def)

lemma Martingale_session_returns:
  assumes rdy: "Mart_ready sim"
  shows "\<exists>sts dur m sim'. session fresh sim = Some (Inr sts, sim')
           \<and> durations sim' = durations sim @ [dur] \<and> dur \<le> nat (init_duration sim)
           \<and> maxima sim' = maxima sim @ [Some m] \<and> init_stake sim \<le> m
           \<and> Mart_ready sim' \<and> init_duration sim' = init_duration sim
           \<and> init_stake sim' = init_stake sim \<and> samples sim' = samples sim"
proof -
  let ?t = "sim_table sim"
  let ?p = "set_stake (init_stake sim) (set_rounds (init_duration sim)
              (Player_init fresh ?t (sim_player sim)))"
  from rdy have a: "kind (sim_player sim) = Martingale \<or> kind (sim_player sim) = SevenReds"
    "bets ?t = []" "length (bins (wheel ?t)) = 38" "black_plain (wheel ?t)"
    by (simp_all add: Mart_ready_def)
  note pi = Player_init_Martingale [OF a, of "init_stake sim" "init_duration sim" fresh]
  from pi have mi: "Mart_inv ?t ?p" by simp
  have sp: "stake ?p = Some (init_stake sim)" by (simp add: set_stake_def)
  from Martingale_loop_returns [OF mi, of "[Some (init_stake sim)]" "init_stake sim" 0]
  obtain sts d' t' p' where l:
    "session_loop ?t ?p [Some (init_stake sim)] 0 = Some (Inr (sts, d'), t', p')"
    "Mart_inv t' p'" "kind p' = kind ?p" "bins (wheel t') = bins (wheel ?t)"
    "all_outcomes (wheel t') = all_outcomes (wheel ?t)" "d' \<le> 0 + rounds_left ?p"
    "sts \<noteq> []" "hd sts = Some (init_stake sim)" "None \<notin> set sts"
    by auto
  from max_stakes_ok [OF l(7,8,9)] obtain m where m: "max_stakes sts = Inr (Some m)"
    "init_stake sim \<le> m" by blast
  let ?sim' = "sim\<lparr>sim_player := p', sim_table := t',
                   durations := durations sim @ [d'], maxima := maxima sim @ [Some m]\<rparr>"
  have s: "session fresh sim = Some (Inr sts, ?sim')"
    using l(1) m(1) sp by (simp add: session_def Let_def)
  have r: "Mart_ready ?sim'"
    using l(2,3,4,5) pi a black_plain_cong [OF l(5)]
    by (simp add: Mart_ready_def Mart_inv_def)
  from l(6) pi have "d' \<le> nat (init_duration sim)" by simp
  with s r m(2) show ?thesis by auto
qed

lemma Martingale_gather_loop:
  assumes "Mart_ready sim"
  shows "\<exists>sim' ds ms. gather_loop fresh k n sim = Some (Inr (), sim')
           \<and> durations sim' = durations sim @ ds \<and> length ds = n
           \<and> (\<forall>x \<in> set ds. x \<le> nat (init_duration sim))
           \<and> maxima sim' = maxima sim @ ms \<and> length ms = n
           \<and> (\<forall>m \<in> set ms. \<exists>v. m = Some v \<and> init_stake sim \<le> v)"
  using assms
proof (induction n arbitrary: k sim)
  case 0
  then show ?case by simp
next
  case (Suc n)
  from Martingale_session_returns [OF Suc.prems, of "fresh k"]
  obtain sts dur m sim1 where 1: "session (fresh k) sim = Some (Inr sts, sim1)"
    "durations sim1 = durations sim @ [dur]" "dur \<le> nat (init_duration sim)"
    "maxima sim1 = maxima sim @ [Some m]" "init_stake sim \<le> m"
    "Mart_ready sim1" "init_duration sim1 = init_duration sim"
    "init_stake sim1 = init_stake sim" by blast
  from Suc.IH [OF 1(6), of "Suc k"]
  obtain sim' ds ms where 2: "gather_loop fresh (Suc k) n sim1 = Some (Inr (), sim')"
    "durations sim' = durations sim1 @ ds" "length ds = n"
    "\<forall>x \<in> set ds. x \<le> nat (init_duration sim1)"
    "maxima sim' = maxima sim1 @ ms" "length ms = n"
    "\<forall>m \<in> set ms. \<exists>v. m = Some v \<and> init_stake sim1 \<le> v" by blast
  have g: "gather_loop fresh k (Suc n) sim = Some (Inr (), sim')"
    using 1(1) 2(1) by simp
  have d: "durations sim' = durations sim @ (dur # ds)" "length (dur # ds) = Suc n"
    "\<forall>x \<in> set (dur # ds). x \<le> nat (init_duration sim)"
    using 1(2,3,7) 2(2,3,4) by simp_all
  have m: "maxima sim' = maxima sim @ (Some m # ms)" "length (Some m # ms) = Suc n"
    "\<forall>x \<in> set (Some m # ms). \<exists>v. x = Some v \<and> init_stake sim \<le> v"
    using 1(4,5,8) 2(5,6,7) by simp_all
  from g d m show ?case by blast
qed


section \<open>The black outcome of a built wheel\<close>

lemma add_outcome_Inr_put:
  assumes "add_outcome b oc w = Inr w'"
  shows "b < length (bins w) \<and> w' = put b oc w"
proof (cases "b < length (bins w)")
  case True
  with assms show ?thesis by (simp add: add_outcome_put)
next
  case False
  with assms show ?thesis by (auto simp: add_outcome_def Let_def split: if_splits)
qed

lemma registry_ok_put:
  assumes ok: "registry_ok w" and oc: "name oc = ''black'' \<longrightarrow> oc = Outcome ''black'' 1"
  shows "registry_ok (put b oc w)"
proof -
  have reg: "name ` set (all_outcomes (put b oc w)) = insert (name oc) (name ` set (all_outcomes w))"
    by (auto simp: all_outcomes_put contains_iff)
  have 1: "\<forall>i < length (bins (put b oc w)).
             names_at (put b oc w) i \<subseteq> name ` set (all_outcomes (put b oc w))"
  proof (intro allI impI)
    fix i assume "i < length (bins (put b oc w))"
    then have i: "i < length (bins w)" by simp
    with ok have "names_at w i \<subseteq> name ` set (all_outcomes w)" by (simp add: registry_ok_def)
    then show "names_at (put b oc w) i \<subseteq> name ` set (all_outcomes (put b oc w))"
      unfolding reg by (auto simp: names_at_put)
  qed
  have 2: "\<forall>x \<in> set (all_outcomes (put b oc w)). name x = ''black'' \<longrightarrow> x = Outcome ''black'' 1"
    using ok oc by (auto simp: all_outcomes_put registry_ok_def split: if_splits)
  from 1 2 show ?thesis by (simp add: registry_ok_def)
qed

lemma keeps_add_outcome:
  assumes "name oc = ''black'' \<longrightarrow> oc = Outcome ''black'' 1"
  shows "keeps (add_outcome b oc)"
  unfolding keeps_def
proof (intro allI impI)
  fix w w' :: Wheel
  assume ok: "registry_ok w" and r: "add_outcome b oc w = Inr w'"
  from add_outcome_Inr_put [OF r] have "w' = put b oc w" by simp
  with registry_ok_put [OF ok assms] show "registry_ok w'" by simp
qed

lemma keeps_numbered: "numbered (name oc) \<Longrightarrow> keeps (add_outcome b oc)"
proof (rule keeps_add_outcome)
  assume "numbered (name oc)"
  then have "name oc \<notin> six" by (rule numbered_not_six)
  then show "name oc = ''black'' \<longrightarrow> oc = Outcome ''black'' 1" by (auto simp: six_def)
qed

lemma keeps_and_then:
  assumes f: "keeps f" and g: "keeps g" and h: "\<And>w. h w = and_then (f w) g"
  shows "keeps h"
  unfolding keeps_def
proof (intro allI impI)
  fix w w' :: Wheel
  assume ok: "registry_ok w" and r: "h w = Inr w'"
  from r obtain w1 where 1: "f w = Inr w1" "g w1 = Inr w'"
    by (cases "f w") (auto simp: h and_then_def)
  from f ok 1(1) have "registry_ok w1" unfolding keeps_def by blast
  with g 1(2) show "registry_ok w'" unfolding keeps_def by blast
qed

lemma keeps_for_each_aux: "(\<And>x. x \<in> set xs \<Longrightarrow> keeps (f x)) \<Longrightarrow> keeps (for_each xs f)"
proof (induction xs)
  case Nil
  show ?case by (simp add: keeps_def)
next
  case (Cons x xs)
  have "keeps (f x)" using Cons.prems by simp
  moreover have "keeps (for_each xs f)" using Cons by simp
  moreover have "\<And>w. for_each (x # xs) f w = and_then (f x w) (for_each xs f)"
    by (simp add: and_then_def)
  ultimately show ?case by (rule keeps_and_then)
qed

lemma keeps_for_each:
  assumes "\<And>x. x \<in> set xs \<Longrightarrow> keeps (f x)" and "\<And>w. h w = for_each xs f w"
  shows "keeps h"
proof -
  from assms(2) have "h = for_each xs f" by (rule ext)
  with keeps_for_each_aux [of xs f] assms(1) show ?thesis by simp
qed

lemma keeps_add_straight_bets: "keeps (add_straight_bets bb)"
proof (cases bb)
  case BinBuilder
  have "keeps (\<lambda>w. and_then
          (for_each [0..<37] (\<lambda>n. add_outcome n (Outcome (str n) 35)) w)
          (add_outcome 37 (Outcome ''00'' 35)))"
    by (intro keeps_and_then [OF _ _ refl] keeps_for_each_aux keeps_numbered)
      (simp_all add: numbered_str, simp add: numbered_def)
  with BinBuilder show ?thesis by (simp add: add_straight_bets_def [abs_def])
next
  case EuroBinBuilder
  have "keeps (\<lambda>w. and_then
          (and_then (for_each [1..<37] (\<lambda>n. add_outcome n (Outcome (str n) 35)) w)
             (add_outcome 37 (Outcome ''00'' 35)))
          (add_outcome 0 (PrisonOutcome ''0'' 35)))"
    by (intro keeps_and_then [OF _ _ refl] keeps_for_each_aux keeps_numbered)
      (simp_all add: numbered_str, simp_all add: numbered_def)
  with EuroBinBuilder show ?thesis by (simp add: add_straight_bets_def [abs_def])
qed

lemma keeps_add_split_bets: "keeps add_split_bets"
proof (rule keeps_and_then [OF _ _ add_split_bets_def])
  show "keeps (for_each [0..<12] (\<lambda>r. for_each [1..<3] (\<lambda>i.
          let n = 3 * r + i in add_left_right_pair (Outcome (dashed [n, n + 1]) 17) n)))"
    unfolding Let_def
    by (intro keeps_for_each_aux keeps_and_then [OF _ _ add_left_right_pair_def] keeps_numbered)
      (simp_all add: numbered_dashed del: dashed.simps)
  show "keeps (for_each [1..<34] (\<lambda>n. add_top_down_pair (Outcome (dashed [n, n + 3]) 17) n))"
    by (intro keeps_for_each_aux keeps_and_then [OF _ _ add_top_down_pair_def] keeps_numbered)
      (simp_all add: numbered_dashed del: dashed.simps)
qed

lemma keeps_add_street_bets: "keeps add_street_bets"
  by (rule keeps_for_each [OF _ add_street_bets_def [unfolded Let_def]])
    (intro keeps_for_each_aux keeps_numbered, simp_all add: numbered_dashed del: dashed.simps)

lemma keeps_add_corner_block: "keeps (add_corner_block idx)"
  by (intro keeps_for_each [OF _ add_corner_block_def [unfolded Let_def]] keeps_numbered)
    (simp add: numbered_dashed del: dashed.simps)

lemma keeps_add_corner_bets: "keeps add_corner_bets"
proof (rule keeps_for_each [OF _ add_corner_bets_def])
  fix r :: nat
  show "keeps (\<lambda>w'. and_then (add_corner_block (3 * r + 1) w') (add_corner_block (3 * r + 2)))"
    by (rule keeps_and_then [OF _ _ refl]) (rule keeps_add_corner_block)+
qed

lemma keeps_add_line_bets: "keeps add_line_bets"
  by (intro keeps_for_each [OF _ add_line_bets_def [unfolded Let_def]] keeps_for_each_aux
      keeps_numbered)
    (simp add: numbered_dashed del: dashed.simps)

lemma keeps_add_dozen_bets: "keeps add_dozen_bets"
  by (intro keeps_for_each [OF _ add_dozen_bets_def [unfolded Let_def]] keeps_for_each_aux
      keeps_numbered)
    (simp add: numbered_def)

lemma keeps_add_column_bets: "keeps add_column_bets"
  by (intro keeps_for_each [OF _ add_column_bets_def [unfolded Let_def]] keeps_for_each_aux
      keeps_numbered)
    (simp add: numbered_def)

lemma keeps_add_five_bets: "keeps (add_five_bets bb)"
proof (cases bb)
  case BinBuilder
  have "keeps (\<lambda>w. and_then
          (for_each [0..<4] (\<lambda>i. add_outcome i (Outcome ''00-0-1-2-3'' 6)) w)
          (add_outcome 37 (Outcome ''00-0-1-2-3'' 6)))"
    by (intro keeps_and_then [OF _ _ refl] keeps_for_each_aux keeps_numbered)
      (simp_all add: numbered_def)
  with BinBuilder show ?thesis by (simp add: add_five_bets_def [abs_def] Let_def)
next
  case EuroBinBuilder
  then show ?thesis by (simp add: add_five_bets_def [abs_def] keeps_def)
qed

lemma keeps_add_four_bets: "keeps add_four_bets"
  by (intro keeps_for_each [OF _ add_four_bets_def [unfolded Let_def]] keeps_numbered)
    (simp add: numbered_def)

lemma keeps_if:
  assumes "keeps f" and "keeps g"
  shows "keeps (\<lambda>w. if c then f w else g w)"
proof (cases c)
  case True
  with assms(1) show ?thesis by simp
next
  case False
  with assms(2) show ?thesis by simp
qed

lemma keeps_even_money_step:
  "keeps (\<lambda>w0. and_then
             (and_then
                (if n \<ge> 1 \<and> n < 19 then add_outcome n (Outcome ''low'' 1) w0
                 else add_outcome n (Outcome ''high'' 1) w0)
                (\<lambda>w1. if n mod 2 = 0 then add_outcome n (Outcome ''even'' 1) w1
                       else add_outcome n (Outcome ''odd'' 1) w1))
             (\<lambda>w2. if n \<in> set red_bins then add_outcome n (Outcome ''red'' 1) w2
                    else add_outcome n (Outcome ''black'' 1) w2))"
proof -
  have a: "\<And>nm. keeps (add_outcome n (Outcome nm 1))"
    by (rule keeps_add_outcome) simp
  let ?A = "\<lambda>w0. if n \<ge> 1 \<and> n < 19 then add_outcome n (Outcome ''low'' 1) w0
                 else add_outcome n (Outcome ''high'' 1) w0"
  let ?B = "\<lambda>w1. if n mod 2 = 0 then add_outcome n (Outcome ''even'' 1) w1
                       else add_outcome n (Outcome ''odd'' 1) w1"
  let ?C = "\<lambda>w2. if n \<in> set red_bins then add_outcome n (Outcome ''red'' 1) w2
                    else add_outcome n (Outcome ''black'' 1) w2"
  have kA: "keeps ?A" by (rule keeps_if) (rule a)+
  have kB: "keeps ?B" by (rule keeps_if) (rule a)+
  have kC: "keeps ?C" by (rule keeps_if) (rule a)+
  have kAB: "keeps (\<lambda>w0. and_then (?A w0) ?B)"
    by (rule keeps_and_then [where f = ?A and g = ?B, OF kA kB]) simp
  show ?thesis
    by (rule keeps_and_then [where f = "\<lambda>w0. and_then (?A w0) ?B" and g = ?C, OF kAB kC]) simp
qed

lemma keeps_add_even_money_bets: "keeps add_even_money_bets"
  by (rule keeps_for_each [OF _ add_even_money_bets_def [unfolded Let_def]])
    (rule keeps_even_money_step)

lemma keeps_base_build_bins: "keeps (base_build_bins bb)"
proof -
  let ?s1 = "\<lambda>w. and_then (add_straight_bets bb w) add_split_bets"
  let ?s2 = "\<lambda>w. and_then (?s1 w) add_street_bets"
  let ?s3 = "\<lambda>w. and_then (?s2 w) add_corner_bets"
  let ?s4 = "\<lambda>w. and_then (?s3 w) add_line_bets"
  let ?s5 = "\<lambda>w. and_then (?s4 w) add_dozen_bets"
  let ?s6 = "\<lambda>w. and_then (?s5 w) add_column_bets"
  let ?s7 = "\<lambda>w. and_then (?s6 w) add_even_money_bets"
  let ?s8 = "\<lambda>w. and_then (?s7 w) (add_five_bets bb)"
  have k1: "keeps ?s1"
    by (rule keeps_and_then [where f = "add_straight_bets bb" and g = add_split_bets])
      (simp_all add: keeps_add_straight_bets keeps_add_split_bets)
  have k2: "keeps ?s2"
    by (rule keeps_and_then [where f = ?s1 and g = add_street_bets])
      (simp_all add: k1 keeps_add_street_bets)
  have k3: "keeps ?s3"
    by (rule keeps_and_then [where f = ?s2 and g = add_corner_bets])
      (simp_all add: k2 keeps_add_corner_bets)
  have k4: "keeps ?s4"
    by (rule keeps_and_then [where f = ?s3 and g = add_line_bets])
      (simp_all add: k3 keeps_add_line_bets)
  have k5: "keeps ?s5"
    by (rule keeps_and_then [where f = ?s4 and g = add_dozen_bets])
      (simp_all add: k4 keeps_add_dozen_bets)
  have k6: "keeps ?s6"
    by (rule keeps_and_then [where f = ?s5 and g = add_column_bets])
      (simp_all add: k5 keeps_add_column_bets)
  have k7: "keeps ?s7"
    by (rule keeps_and_then [where f = ?s6 and g = add_even_money_bets])
      (simp_all add: k6 keeps_add_even_money_bets)
  have k8: "keeps ?s8"
    by (rule keeps_and_then [where f = ?s7 and g = "add_five_bets bb"])
      (simp_all add: k7 keeps_add_five_bets)
  have "base_build_bins bb = ?s8" by (rule ext) (simp add: base_build_bins_def)
  with k8 show ?thesis by simp
qed

lemma keeps_build_bins: "keeps (build_bins bb)"
proof (cases bb)
  case BinBuilder
  then have "build_bins bb = base_build_bins bb" by (intro ext) (simp add: build_bins_def)
  with keeps_base_build_bins [of bb] show ?thesis by simp
next
  case EuroBinBuilder
  have "keeps (\<lambda>w. and_then (base_build_bins bb w) add_four_bets)"
    by (rule keeps_and_then [where f = "base_build_bins bb" and g = add_four_bets])
      (simp_all add: keeps_base_build_bins keeps_add_four_bets)
  moreover from EuroBinBuilder
  have "build_bins bb = (\<lambda>w. and_then (base_build_bins bb w) add_four_bets)"
    by (intro ext) (simp add: build_bins_def)
  ultimately show ?thesis by simp
qed

lemma registry_ok_empty_wheel: "registry_ok (empty_wheel r)"
  by (simp add: registry_ok_def empty_wheel_def names_at_def)

lemma Wheel_init_registry_ok:
  assumes "Wheel_init seeded fresh seed rules = Inr w"
  shows "registry_ok w"
proof -
  let ?w0 = "empty_wheel (if truthy seed then seeded (the seed) else fresh)"
  from assms have "(\<exists>bb. build_bins bb ?w0 = Inr w) \<or> w = ?w0"
    by (auto simp: Wheel_init_unfold split: if_splits)
  with keeps_build_bins registry_ok_empty_wheel [of "if truthy seed then seeded (the seed) else fresh"]
  show ?thesis unfolding keeps_def by blast
qed

text \<open>What a player finds under the name black on a wheel that \<open>Wheel.__init__\<close> built.\<close>

lemma get_outcome_black_odds:
  assumes "registry_ok w" and "get_outcome w ''black'' = Some oc"
  shows "oc = Outcome ''black'' 1"
  using assms get_outcome_mem [of w "''black''" oc] by (simp add: registry_ok_def)

lemma get_outcome_registered:
  assumes "nm \<in> name ` set (all_outcomes w)"
  shows "\<exists>oc. get_outcome w nm = Some oc"
proof -
  from assms have "filter (\<lambda>oc. name oc = nm) (all_outcomes w) \<noteq> []"
    by (auto simp: filter_empty_conv)
  then show ?thesis by (cases "filter (\<lambda>oc. name oc = nm) (all_outcomes w)")
      (simp_all add: get_outcome_def)
qed

lemma built_wheel_black:
  assumes r: "rules = ''american'' \<or> rules = ''european''"
    and w: "Wheel_init seeded fresh seed rules = Inr w"
  shows "get_outcome w ''black'' = Some (Outcome ''black'' 1)"
proof -
  from built_wheel [OF r, of seeded fresh seed] w
  have l: "length (bins w) = 38" and n: "\<forall>i < 38. names_at w i \<inter> six = even_money_names i"
    by auto
  from n have "names_at w 2 \<inter> six = even_money_names 2" by simp
  then have "''black'' \<in> names_at w 2"
    by (auto simp: even_money_names_def red_bins_def)
  moreover from Wheel_init_registry_ok [OF w] l
  have ok: "registry_ok w" and "names_at w 2 \<subseteq> name ` set (all_outcomes w)"
    by (simp_all add: registry_ok_def)
  ultimately have "''black'' \<in> name ` set (all_outcomes w)" by blast
  from get_outcome_registered [OF this] obtain oc where "get_outcome w ''black'' = Some oc"
    by blast
  with get_outcome_black_odds [OF ok] show ?thesis by simp
qed

lemma get_outcome_cong:
  "all_outcomes w' = all_outcomes w \<Longrightarrow> get_outcome w' nm = get_outcome w nm"
  by (simp add: get_outcome_def)

lemma own_black_odds:
  assumes w: "Wheel_init seeded fresh seed rules = Inr w"
    and a: "all_outcomes (wheel t) = all_outcomes w"
    and b: "black p = get_outcome (wheel t) ''black''"
  shows "black p = None \<or> black p = Some (Outcome ''black'' 1)"
proof (cases "black p")
  case None
  then show ?thesis by simp
next
  case (Some oc)
  with b get_outcome_cong [OF a, of "''black''"] have "get_outcome w ''black'' = Some oc"
    by simp
  with get_outcome_black_odds [OF Wheel_init_registry_ok [OF w]] Some show ?thesis by simp
qed

section \<open>The table\<close>

text \<open>
  C2. \<open>Table.place_bet\<close> is claimed to leave the bet list as it was when it raises
  InvalidBet, so that the sum of the active bets never exceeds the limit. On a table
  with limit 100 and no bets, placing a bet of 101 raises InvalidBet, and the bet of 101
  is on the table afterwards: the table that comes back is not valid.
\<close>

theorem place_bet_over_limit_keeps_bet:
  "place_bet \<lparr>amount = 101, outcome = Some (Outcome ''black'' 1)\<rparr> (Table_init 100 w)
     = (Inl InvalidBet,
        \<lparr>limit = 100, bets = [\<lparr>amount = 101, outcome = Some (Outcome ''black'' 1)\<rparr>],
         wheel = w\<rparr>)
   \<and> \<not> is_valid (snd (place_bet \<lparr>amount = 101, outcome = Some (Outcome ''black'' 1)\<rparr>
                         (Table_init 100 w)))"
  by (simp add: place_bet_def Table_init_def is_valid_def)

section \<open>Payouts of the base player\<close>

text \<open>
  C3. \<open>Player.win\<close> returns amount times odds, and \<open>Player.lose\<close> returns 0 on a plain
  Outcome. On a PrisonOutcome \<open>Player.lose\<close> does not return half the win amount: it
  raises TypeError.
\<close>

theorem Player_win_lose_values:
  "Player_win \<lparr>amount = a, outcome = Some oc\<rparr> = Inr (a * odds oc)
   \<and> Player_lose \<lparr>amount = a, outcome = Some (Outcome n d)\<rparr> = Inr 0
   \<and> Player_lose \<lparr>amount = a, outcome = Some (PrisonOutcome n d)\<rparr> = Inl TypeError"
  by (simp add: Player_win_def win_amount_def Player_lose_def)

section \<open>Martingale\<close>

text \<open>
  C4. For a Martingale player (SevenReds included) with a stake: \<open>win\<close> resets the
  losing-streak counter \<open>multiplier\<close> to 0, adds the bet's amount to the stake and returns
  the base player's win value, amount times odds; \<open>lose\<close> adds 1 to the counter and
  leaves the rest of the player as it was. The bets the player places on a cleared
  table are on its black outcome, the one \<open>get_outcome\<close> finds under the name black. On
  a wheel that \<open>Wheel.__init__\<close> built, whatever the seed and the rules, a bet of the
  player that is in the winning bin is on black at odds 1, so the value \<open>win\<close> returns
  is the amount it credits: the win is credited to the stake. With the american or the
  european rules the constructor of the player finds \<open>Outcome("black", 1)\<close>.
\<close>

theorem Martingale_win_lose_effect:
  assumes "kind p = Martingale \<or> kind p = SevenReds" and "stake p = Some s"
  shows "win b p = (Player_win b, p\<lparr>multiplier := 0, stake := Some (s + amount b)\<rparr>)
       \<and> lose b p = (Player_lose b, p\<lparr>multiplier := multiplier p + 1\<rparr>)
       \<and> (bets t = [] \<longrightarrow> (\<forall>x \<in> set (bets (fst (snd (place_bets t p)))). outcome x = black p))
       \<and> (Wheel_init seeded fresh seed rules = Inr w
            \<and> all_outcomes (wheel t) = all_outcomes w
            \<and> black p = get_outcome (wheel t) ''black''
            \<and> outcome b = black p \<and> member_of (outcome b) ws
          \<longrightarrow> odds (the (outcome b)) = 1
            \<and> win b p = (Inr (amount b), p\<lparr>multiplier := 0, stake := Some (s + amount b)\<rparr>))
       \<and> (Wheel_init seeded fresh seed rules = Inr w
            \<and> (rules = ''american'' \<or> rules = ''european'')
            \<and> all_outcomes (wheel t) = all_outcomes w
          \<longrightarrow> black (Player_init r t p) = Some (Outcome ''black'' 1))"
proof -
  have 1: "win b p = (Player_win b, p\<lparr>multiplier := 0, stake := Some (s + amount b)\<rparr>)"
    using assms by (auto simp: win_def Martingale_win_def)
  have 2: "lose b p = (Player_lose b, p\<lparr>multiplier := multiplier p + 1\<rparr>)"
    using assms by (auto simp: lose_def Martingale_lose_def)
  have 3: "bets t = [] \<longrightarrow>
      (\<forall>x \<in> set (bets (fst (snd (place_bets t p)))). outcome x = black p)"
  proof
    assume "bets t = []"
    from Martingale_place_bets_ok [OF assms(1) this assms(2)] show
      "\<forall>x \<in> set (bets (fst (snd (place_bets t p)))). outcome x = black p" by auto
  qed
  have 4: "Wheel_init seeded fresh seed rules = Inr w
            \<and> all_outcomes (wheel t) = all_outcomes w
            \<and> black p = get_outcome (wheel t) ''black''
            \<and> outcome b = black p \<and> member_of (outcome b) ws
          \<longrightarrow> odds (the (outcome b)) = 1
            \<and> win b p = (Inr (amount b), p\<lparr>multiplier := 0, stake := Some (s + amount b)\<rparr>)"
  proof
    assume h: "Wheel_init seeded fresh seed rules = Inr w
            \<and> all_outcomes (wheel t) = all_outcomes w
            \<and> black p = get_outcome (wheel t) ''black''
            \<and> outcome b = black p \<and> member_of (outcome b) ws"
    then have "black p = None \<or> black p = Some (Outcome ''black'' 1)"
      using own_black_odds by blast
    moreover have "outcome b \<noteq> None"
    proof
      assume "outcome b = None"
      with h show False by (simp add: member_of_def)
    qed
    moreover from h have "outcome b = black p" by simp
    ultimately have o: "outcome b = Some (Outcome ''black'' 1)" by auto
    then have "Player_win b = Inr (amount b)" by (simp add: Player_win_def win_amount_def)
    with 1 o show "odds (the (outcome b)) = 1
            \<and> win b p = (Inr (amount b), p\<lparr>multiplier := 0, stake := Some (s + amount b)\<rparr>)"
      by simp
  qed
  have 5: "Wheel_init seeded fresh seed rules = Inr w
            \<and> (rules = ''american'' \<or> rules = ''european'')
            \<and> all_outcomes (wheel t) = all_outcomes w
          \<longrightarrow> black (Player_init r t p) = Some (Outcome ''black'' 1)"
  proof
    assume h: "Wheel_init seeded fresh seed rules = Inr w
            \<and> (rules = ''american'' \<or> rules = ''european'')
            \<and> all_outcomes (wheel t) = all_outcomes w"
    then have "get_outcome w ''black'' = Some (Outcome ''black'' 1)"
      using built_wheel_black [of rules seeded fresh seed w] by simp
    moreover from h have "get_outcome (wheel t) ''black'' = get_outcome w ''black''"
      using get_outcome_cong [of "wheel t" w "''black''"] by simp
    ultimately have "get_outcome (wheel t) ''black'' = Some (Outcome ''black'' 1)" by simp
    with assms(1) show "black (Player_init r t p) = Some (Outcome ''black'' 1)"
      by (auto simp: Player_init_def Let_def)
  qed
  show ?thesis by (intro conjI) (rule 1, rule 2, rule 3, rule 4, rule 5)
qed

theorem Martingale_win_lose_effect_witness:
  "(let t = Table_init 500 default_wheel; p = martingale_at t 250 1000;
        b = \<lparr>amount = 4, outcome = black p\<rparr>; ws = bins default_wheel ! 2
    in (kind p = Martingale \<or> kind p = SevenReds) \<and> stake p = Some 1000 \<and> bets t = []
       \<and> Wheel_init zero_seeded zero_rng None ''american'' = Inr default_wheel
       \<and> (''american'' = ''american'' \<or> ''american'' = ''european'')
       \<and> all_outcomes (wheel t) = all_outcomes default_wheel
       \<and> black p = get_outcome (wheel t) ''black''
       \<and> outcome b = black p \<and> member_of (outcome b) ws
       \<and> black p = Some (Outcome ''black'' 1)
       \<and> win b p = (Inr 4, p\<lparr>multiplier := 0, stake := Some 1004\<rparr>)
       \<and> lose b p = (Inr 0, p\<lparr>multiplier := 1\<rparr>)
       \<and> (\<forall>x \<in> set (bets (fst (snd (place_bets t p)))). outcome x = black p))"
proof -
  define t where "t = Table_init 500 default_wheel"
  define p where "p = martingale_at t 250 1000"
  define b where "b = \<lparr>amount = 4, outcome = black p\<rparr>"
  define ws where "ws = bins default_wheel ! 2"
  have k: "kind p = Martingale \<or> kind p = SevenReds"
    by (simp add: p_def martingale_at_def set_stake_def set_rounds_def Player_init_def
        blank_def Let_def)
  have s: "stake p = Some 1000"
    by (simp add: p_def martingale_at_def set_stake_def)
  have m: "multiplier p = 0"
    by (simp add: p_def martingale_at_def set_stake_def set_rounds_def Player_init_def
        blank_def Let_def)
  have bt: "bets t = []" and wt: "wheel t = default_wheel"
    by (simp_all add: t_def Table_init_def)
  have wi: "Wheel_init zero_seeded zero_rng None ''american'' = Inr default_wheel"
    using default_wheel_props by simp
  have am: "''american'' = ''american'' \<or> ''american'' = ''european''" by simp
  have ao: "all_outcomes (wheel t) = all_outcomes default_wheel" using wt by simp
  have bp: "black p = get_outcome (wheel t) ''black''"
    by (simp add: p_def martingale_at_def set_stake_def set_rounds_def Player_init_def
        blank_def Let_def)
  have bk: "black p = Some (Outcome ''black'' 1)"
    using bp wt built_wheel_black [OF am wi] by simp
  have ob: "outcome b = black p" and ab: "amount b = 4" by (simp_all add: b_def)
  from built_wheel [OF am, of zero_seeded zero_rng None] wi
  have "names_at default_wheel 2 \<inter> six = even_money_names 2" by auto
  from six_member [OF this, of "''black''" 1]
  have "contains (bins default_wheel ! 2) (Outcome ''black'' 1)"
    by (simp add: six_def even_money_names_def red_bins_def)
  with ob bk have mem: "member_of (outcome b) ws" by (simp add: member_of_def ws_def)
  note th = Martingale_win_lose_effect [OF k s, of b t zero_seeded zero_rng None "''american''"
      default_wheel ws]
  have prem: "Wheel_init zero_seeded zero_rng None ''american'' = Inr default_wheel
            \<and> all_outcomes (wheel t) = all_outcomes default_wheel
            \<and> black p = get_outcome (wheel t) ''black''
            \<and> outcome b = black p \<and> member_of (outcome b) ws"
    by (intro conjI) (rule wi, rule ao, rule bp, rule ob, rule mem)
  from th [THEN conjunct2, THEN conjunct2, THEN conjunct2, THEN conjunct1, THEN mp, OF prem]
  have "win b p = (Inr (amount b), p\<lparr>multiplier := 0, stake := Some (1000 + amount b)\<rparr>)"
    by (rule conjunct2)
  then have w: "win b p = (Inr 4, p\<lparr>multiplier := 0, stake := Some 1004\<rparr>)"
    by (simp add: ab)
  have pl: "Player_lose b = Inr 0" using ob bk by (simp add: Player_lose_def)
  from th [THEN conjunct2, THEN conjunct1]
  have l: "lose b p = (Inr 0, p\<lparr>multiplier := 1\<rparr>)" by (simp add: pl m)
  from th [THEN conjunct2, THEN conjunct2, THEN conjunct1, THEN mp, OF bt]
  have pb: "\<forall>x \<in> set (bets (fst (snd (place_bets t p)))). outcome x = black p" .
  from k s bt wi am ao bp ob mem bk w l pb show ?thesis
    unfolding Let_def t_def [symmetric] p_def [symmetric] b_def [symmetric] ws_def [symmetric]
    by simp
qed

text \<open>
  C6. A Martingale player with a stake \<open>s\<close> places one bet of
  \<open>min (2 ^ multiplier) (min limit s)\<close> on its black outcome and deducts it from the
  stake; SevenReds does the same once its red count has reached 7. With table limit 500
  and stake 1000, three lost rounds leave a stake of 993 and a counter of 3, and the
  fourth bet is 8.
\<close>

theorem Martingale_bet_amount:
  assumes "stake p = Some s"
  shows "Martingale_place_bets t p =
           (fst (place_bet \<lparr>amount = min (2 ^ multiplier p) (min (limit t) s),
                           outcome = black p\<rparr> t),
            t\<lparr>bets := bets t @ [\<lparr>amount = min (2 ^ multiplier p) (min (limit t) s),
                                 outcome = black p\<rparr>]\<rparr>,
            p\<lparr>stake := Some (s - min (2 ^ multiplier p) (min (limit t) s))\<rparr>)
       \<and> (kind p = Martingale \<longrightarrow> place_bets t p = Martingale_place_bets t p)
       \<and> (kind p = SevenReds \<and> red_count p \<ge> 7
            \<longrightarrow> place_bets t p = Martingale_place_bets t p)
       \<and> (let t0 = Table_init 500 red_wheel;
               (r1, t1, p1) = Game_cycle t0 (martingale_at t0 250 1000);
               (r2, t2, p2) = Game_cycle t1 p1;
               (r3, t3, p3) = Game_cycle t2 p2;
               (r4, t4, p4) = place_bets t3 p3
           in r1 = Inr (0, 1) \<and> r2 = Inr (0, 1) \<and> r3 = Inr (0, 1)
              \<and> multiplier p3 = 3 \<and> stake p3 = Some 993
              \<and> r4 = Inr () \<and> map amount (bets t4) = [8])"
proof -
  have "Martingale_place_bets t p =
           (fst (place_bet \<lparr>amount = min (2 ^ multiplier p) (min (limit t) s),
                           outcome = black p\<rparr> t),
            t\<lparr>bets := bets t @ [\<lparr>amount = min (2 ^ multiplier p) (min (limit t) s),
                                 outcome = black p\<rparr>]\<rparr>,
            p\<lparr>stake := Some (s - min (2 ^ multiplier p) (min (limit t) s))\<rparr>)"
    using assms by (rule Martingale_place_bets_Some)
  moreover have "kind p = Martingale \<longrightarrow> place_bets t p = Martingale_place_bets t p"
    by (simp add: place_bets_def)
  moreover have "kind p = SevenReds \<and> red_count p \<ge> 7
      \<longrightarrow> place_bets t p = Martingale_place_bets t p"
    by (simp add: place_bets_def SevenReds_place_bets_def)
  moreover have "(let t0 = Table_init 500 red_wheel;
               (r1, t1, p1) = Game_cycle t0 (martingale_at t0 250 1000);
               (r2, t2, p2) = Game_cycle t1 p1;
               (r3, t3, p3) = Game_cycle t2 p2;
               (r4, t4, p4) = place_bets t3 p3
           in r1 = Inr (0, 1) \<and> r2 = Inr (0, 1) \<and> r3 = Inr (0, 1)
              \<and> multiplier p3 = 3 \<and> stake p3 = Some 993
              \<and> r4 = Inr () \<and> map amount (bets t4) = [8])"
    by (simp add: martingale_at_def red_wheel_def zero_rng_def player_defs bet_defs
        round_defs Let_def)
  ultimately show ?thesis by blast
qed

theorem Martingale_bet_amount_witness:
  "(let t = Table_init 500 red_wheel;
        p = (martingale_at t 247 993)\<lparr>multiplier := 3\<rparr>
    in stake p = Some 993
       \<and> map amount (bets (fst (snd (Martingale_place_bets t p)))) = [8]
       \<and> stake (snd (snd (Martingale_place_bets t p))) = Some 985)"
proof -
  define t where "t = Table_init 500 red_wheel"
  define p where "p = (martingale_at t 247 993)\<lparr>multiplier := 3\<rparr>"
  have s: "stake p = Some 993"
    by (simp add: p_def martingale_at_def player_defs)
  have m: "multiplier p = 3" by (simp add: p_def)
  have l: "limit t = 500" and b: "bets t = []" by (simp_all add: t_def Table_init_def)
  from Martingale_bet_amount [OF s, of t] s m l b show ?thesis
    unfolding Let_def t_def [symmetric] p_def [symmetric]
    by simp
qed

text \<open>
  C9. Martingale and SevenReds never trigger InvalidBet when they start a round on a
  cleared table: \<open>place_bets\<close> puts at most one bet on it, of an amount that is at most
  the table limit, and does not raise InvalidBet; neither does the round. A round that
  returns leaves the table cleared again, so no round of a session and no session of
  \<open>gather\<close> raises InvalidBet either.
\<close>

theorem Martingale_family_never_InvalidBet:
  assumes "kind p = Martingale \<or> kind p = SevenReds" and "bets t = []"
  shows "fst (place_bets t p) \<noteq> Inl InvalidBet
       \<and> length (bets (fst (snd (place_bets t p)))) \<le> 1
       \<and> (\<forall>b \<in> set (bets (fst (snd (place_bets t p)))). amount b \<le> limit t)
       \<and> fst (Game_cycle t p) \<noteq> Inl InvalidBet
       \<and> (\<forall>res. fst (Game_cycle t p) = Inr res \<longrightarrow> bets (fst (snd (Game_cycle t p))) = [])
       \<and> (\<forall>y. session_loop t p stakes d = Some y \<longrightarrow> fst y \<noteq> Inl InvalidBet)
       \<and> (\<forall>sim y. sim_player sim = p \<and> sim_table sim = t \<and> gather fresh sim = Some y
             \<longrightarrow> fst y \<noteq> Inl InvalidBet)"
proof -
  note pb = Martingale_place_bets_empty_table [OF assms]
  have c1: "fst (Game_cycle t p) \<noteq> Inl InvalidBet"
  proof
    assume "fst (Game_cycle t p) = Inl InvalidBet"
    then have "Game_cycle t p = (Inl InvalidBet, fst (snd (Game_cycle t p)), snd (snd (Game_cycle t p)))"
      by (metis prod.collapse)
    from Game_cycle_InvalidBet [OF this] pb show False by simp
  qed
  have c2: "\<forall>res. fst (Game_cycle t p) = Inr res \<longrightarrow> bets (fst (snd (Game_cycle t p))) = []"
  proof (intro allI impI)
    fix res assume "fst (Game_cycle t p) = Inr res"
    then have "Game_cycle t p = (Inr res, fst (snd (Game_cycle t p)), snd (snd (Game_cycle t p)))"
      by (metis prod.collapse)
    from Game_cycle_finished [OF this] show "bets (fst (snd (Game_cycle t p))) = []" by simp
  qed
  have c3: "\<forall>y. session_loop t p stakes d = Some y \<longrightarrow> fst y \<noteq> Inl InvalidBet"
  proof (intro allI impI)
    fix y assume "session_loop t p stakes d = Some y"
    then have "session_loop t p stakes d = Some (fst y, fst (snd y), snd (snd y))" by simp
    from Martingale_loop_no_InvalidBet [OF assms this] show "fst y \<noteq> Inl InvalidBet" by simp
  qed
  have c4: "\<forall>sim y. sim_player sim = p \<and> sim_table sim = t \<and> gather fresh sim = Some y
             \<longrightarrow> fst y \<noteq> Inl InvalidBet"
  proof (intro allI impI)
    fix sim y assume a: "sim_player sim = p \<and> sim_table sim = t \<and> gather fresh sim = Some y"
    then have "gather_loop fresh 0 (samples sim) sim = Some (fst y, snd y)"
      by (simp add: gather_def)
    from Martingale_gather_no_InvalidBet [OF _ _ this] a assms
    show "fst y \<noteq> Inl InvalidBet" by simp
  qed
  from pb c1 c2 c3 c4 show ?thesis by blast
qed

theorem Martingale_family_never_InvalidBet_witness:
  "(let t = Table_init 4 red_wheel; p = (martingale_at t 250 1000)\<lparr>multiplier := 5\<rparr>
    in (kind p = Martingale \<or> kind p = SevenReds) \<and> bets t = []
       \<and> fst (place_bets t p) = Inr ()
       \<and> map amount (bets (fst (snd (place_bets t p)))) = [4]
       \<and> fst (Game_cycle t p) \<noteq> Inl InvalidBet)"
proof -
  define t where "t = Table_init 4 red_wheel"
  define p where "p = (martingale_at t 250 1000)\<lparr>multiplier := 5\<rparr>"
  have k: "kind p = Martingale \<or> kind p = SevenReds"
    by (simp add: p_def martingale_at_def player_defs)
  have b: "bets t = []" by (simp add: t_def Table_init_def)
  have e: "fst (place_bets t p) = Inr () \<and> map amount (bets (fst (snd (place_bets t p)))) = [4]"
    by (simp add: p_def t_def martingale_at_def player_defs bet_defs Let_def)
  from Martingale_family_never_InvalidBet [OF k b] k b e show ?thesis
    unfolding Let_def t_def [symmetric] p_def [symmetric] by blast
qed

section \<open>Who changes the stake\<close>

text \<open>
  C10. The base \<open>win\<close> and \<open>lose\<close> (Passenger57 and PlayerRandom use them) return a
  value and leave the player as it is, and a whole round leaves the stake of such a
  player unchanged, so every stake a session records for it is the stake it started
  with. For Martingale and SevenReds the stake after a round is the one their own
  assignments produce (the deduction in \<open>place_bets\<close>, the bet's amount added in \<open>win\<close>),
  whatever the odds. The session continues from the table and the player a round leaves;
  the pair of payout sum and bet count the round returns is not used.
\<close>

theorem stake_changes_only_by_strategy:
  "(kind p = Passenger57 \<or> kind p = PlayerRandom \<longrightarrow>
       win b p = (Player_win b, p) \<and> lose b p = (Player_lose b, p)
     \<and> stake (snd (snd (Game_cycle t p))) = stake p
     \<and> (\<forall>sts d' t' p'. session_loop t p stakes d = Some (Inr (sts, d'), t', p')
           \<longrightarrow> set sts \<subseteq> set stakes \<union> {stake p}))
   \<and> (kind p = Martingale \<or> kind p = SevenReds \<longrightarrow>
       (\<forall>res t' p'. Game_cycle t p = (Inr res, t', p') \<longrightarrow> stake p' = Martingale_stake_after t p))
   \<and> (\<forall>res t' p'. playing p \<and> Game_cycle t p = (Inr res, t', p') \<longrightarrow>
         session_loop t p stakes d = session_loop t' p' (stakes @ [stake p']) (d + 1))"
proof -
  have a: "kind p = Passenger57 \<or> kind p = PlayerRandom \<longrightarrow>
       win b p = (Player_win b, p) \<and> lose b p = (Player_lose b, p)"
    by (auto simp: win_def lose_def)
  have c: "\<forall>res t' p'. playing p \<and> Game_cycle t p = (Inr res, t', p') \<longrightarrow>
         session_loop t p stakes d = session_loop t' p' (stakes @ [stake p']) (d + 1)"
    by (subst session_loop.simps) simp
  from a c Game_cycle_base_stake [of p t] base_loop_stakes [of p t stakes d]
    Game_cycle_Martingale_stake [of p t]
  show ?thesis by blast
qed

theorem stake_changes_only_by_strategy_witness:
  "(let t = Table_init 1000 black_wheel;
        p = set_stake 100 (set_rounds 250 (Player_init zero_rng t (blank Passenger57)))
    in (kind p = Passenger57 \<or> kind p = PlayerRandom)
       \<and> fst (Game_cycle t p) = Inr (10, 1)
       \<and> stake (snd (snd (Game_cycle t p))) = Some 100)"
proof -
  define t where "t = Table_init 1000 black_wheel"
  define p where "p = set_stake 100 (set_rounds 250 (Player_init zero_rng t (blank Passenger57)))"
  have k: "kind p = Passenger57 \<or> kind p = PlayerRandom"
    by (simp add: p_def player_defs)
  have s: "stake p = Some 100" by (simp add: p_def player_defs)
  have e: "fst (Game_cycle t p) = Inr (10, 1)"
    by (simp add: p_def t_def black_wheel_def zero_rng_def player_defs bet_defs round_defs Let_def)
  from stake_changes_only_by_strategy [of p _ t] k s e show ?thesis
    unfolding Let_def t_def [symmetric] p_def [symmetric] by simp
qed

section \<open>The wheel\<close>

text \<open>
  C7. Every wheel built with the default rules (\<open>"american"\<close>, whatever the seed) has,
  in each bin 1 to 36, exactly one of high and low, exactly one of even and odd and
  exactly one of red and black: low for 1 to 18, even for the even numbers, red for the
  numbers of \<open>red_bins\<close>. Bins 0 and 37 hold none of the six even-money outcomes.
\<close>

theorem default_wheel_even_money:
  "\<exists>w. Wheel_init seeded fresh seed ''american'' = Inr w
     \<and> (\<forall>n. 1 \<le> n \<and> n \<le> 36 \<longrightarrow>
          (contains (bins w ! n) (Outcome ''high'' 1) \<noteq> contains (bins w ! n) (Outcome ''low'' 1))
        \<and> (contains (bins w ! n) (Outcome ''even'' 1) \<noteq> contains (bins w ! n) (Outcome ''odd'' 1))
        \<and> (contains (bins w ! n) (Outcome ''red'' 1) \<noteq> contains (bins w ! n) (Outcome ''black'' 1))
        \<and> (contains (bins w ! n) (Outcome ''low'' 1) \<longleftrightarrow> n < 19)
        \<and> (contains (bins w ! n) (Outcome ''even'' 1) \<longleftrightarrow> n mod 2 = 0)
        \<and> (contains (bins w ! n) (Outcome ''red'' 1) \<longleftrightarrow> n \<in> set red_bins))
     \<and> (\<forall>oc. name oc \<in> six \<longrightarrow>
          \<not> contains (bins w ! 0) oc \<and> \<not> contains (bins w ! 37) oc)"
proof -
  from built_wheel [of "''american''" seeded fresh seed]
  obtain w where w: "Wheel_init seeded fresh seed ''american'' = Inr w"
    "\<forall>i < 38. names_at w i \<inter> six = even_money_names i" by auto
  have mem: "\<And>n nm d. n < 38 \<Longrightarrow> nm \<in> six \<Longrightarrow>
      contains (bins w ! n) (Outcome nm d) \<longleftrightarrow> nm \<in> even_money_names n"
    using w(2) six_member by blast
  have inner: "\<forall>n. 1 \<le> n \<and> n \<le> 36 \<longrightarrow>
          (contains (bins w ! n) (Outcome ''high'' 1) \<noteq> contains (bins w ! n) (Outcome ''low'' 1))
        \<and> (contains (bins w ! n) (Outcome ''even'' 1) \<noteq> contains (bins w ! n) (Outcome ''odd'' 1))
        \<and> (contains (bins w ! n) (Outcome ''red'' 1) \<noteq> contains (bins w ! n) (Outcome ''black'' 1))
        \<and> (contains (bins w ! n) (Outcome ''low'' 1) \<longleftrightarrow> n < 19)
        \<and> (contains (bins w ! n) (Outcome ''even'' 1) \<longleftrightarrow> n mod 2 = 0)
        \<and> (contains (bins w ! n) (Outcome ''red'' 1) \<longleftrightarrow> n \<in> set red_bins)"
  proof (intro allI impI)
    fix n :: nat
    assume n: "1 \<le> n \<and> n \<le> 36"
    then have n38: "n < 38" by simp
    have e: "even_money_names n =
        {if n < 19 then ''low'' else ''high'', if n mod 2 = 0 then ''even'' else ''odd'',
         if n \<in> set red_bins then ''red'' else ''black''}"
      using n by (simp add: even_money_names_def)
    have hi: "contains (bins w ! n) (Outcome ''high'' 1) \<longleftrightarrow> \<not> n < 19"
      by (subst mem [OF n38]) (simp_all add: six_def e)
    have lo: "contains (bins w ! n) (Outcome ''low'' 1) \<longleftrightarrow> n < 19"
      by (subst mem [OF n38]) (simp_all add: six_def e)
    have ev: "contains (bins w ! n) (Outcome ''even'' 1) \<longleftrightarrow> n mod 2 = 0"
      by (subst mem [OF n38]) (simp_all add: six_def e)
    have od: "contains (bins w ! n) (Outcome ''odd'' 1) \<longleftrightarrow> \<not> n mod 2 = 0"
      by (subst mem [OF n38]) (simp_all add: six_def e)
    have re: "contains (bins w ! n) (Outcome ''red'' 1) \<longleftrightarrow> n \<in> set red_bins"
      by (subst mem [OF n38]) (simp_all add: six_def e)
    have bl: "contains (bins w ! n) (Outcome ''black'' 1) \<longleftrightarrow> n \<notin> set red_bins"
      by (subst mem [OF n38]) (simp_all add: six_def e)
    from hi lo ev od re bl
    show "(contains (bins w ! n) (Outcome ''high'' 1) \<noteq> contains (bins w ! n) (Outcome ''low'' 1))
        \<and> (contains (bins w ! n) (Outcome ''even'' 1) \<noteq> contains (bins w ! n) (Outcome ''odd'' 1))
        \<and> (contains (bins w ! n) (Outcome ''red'' 1) \<noteq> contains (bins w ! n) (Outcome ''black'' 1))
        \<and> (contains (bins w ! n) (Outcome ''low'' 1) \<longleftrightarrow> n < 19)
        \<and> (contains (bins w ! n) (Outcome ''even'' 1) \<longleftrightarrow> n mod 2 = 0)
        \<and> (contains (bins w ! n) (Outcome ''red'' 1) \<longleftrightarrow> n \<in> set red_bins)"
      by simp
  qed
  have outer: "\<forall>oc. name oc \<in> six \<longrightarrow>
          \<not> contains (bins w ! 0) oc \<and> \<not> contains (bins w ! 37) oc"
  proof (intro allI impI)
    fix oc assume s: "name oc \<in> six"
    from w(2) have "names_at w 0 \<inter> six = {}" "names_at w 37 \<inter> six = {}"
      by (simp_all add: even_money_names_def)
    with s show "\<not> contains (bins w ! 0) oc \<and> \<not> contains (bins w ! 37) oc"
      by (auto simp: contains_iff names_at_def)
  qed
  from w(1) inner outer show ?thesis by blast
qed

theorem default_wheel_even_money_witness:
  "\<exists>w. Wheel_init zero_seeded zero_rng None ''american'' = Inr w
     \<and> (1::nat) \<le> 5 \<and> (5::nat) \<le> 36 \<and> name (Outcome ''red'' 1) \<in> six
     \<and> contains (bins w ! 5) (Outcome ''low'' 1) \<and> \<not> contains (bins w ! 5) (Outcome ''high'' 1)
     \<and> contains (bins w ! 5) (Outcome ''odd'' 1) \<and> \<not> contains (bins w ! 5) (Outcome ''even'' 1)
     \<and> contains (bins w ! 5) (Outcome ''red'' 1) \<and> \<not> contains (bins w ! 5) (Outcome ''black'' 1)
     \<and> \<not> contains (bins w ! 0) (Outcome ''red'' 1)"
proof -
  from default_wheel_even_money [of zero_seeded zero_rng None]
  obtain w where w: "Wheel_init zero_seeded zero_rng None ''american'' = Inr w"
    and inner: "\<forall>n. 1 \<le> n \<and> n \<le> 36 \<longrightarrow>
          (contains (bins w ! n) (Outcome ''high'' 1) \<noteq> contains (bins w ! n) (Outcome ''low'' 1))
        \<and> (contains (bins w ! n) (Outcome ''even'' 1) \<noteq> contains (bins w ! n) (Outcome ''odd'' 1))
        \<and> (contains (bins w ! n) (Outcome ''red'' 1) \<noteq> contains (bins w ! n) (Outcome ''black'' 1))
        \<and> (contains (bins w ! n) (Outcome ''low'' 1) \<longleftrightarrow> n < 19)
        \<and> (contains (bins w ! n) (Outcome ''even'' 1) \<longleftrightarrow> n mod 2 = 0)
        \<and> (contains (bins w ! n) (Outcome ''red'' 1) \<longleftrightarrow> n \<in> set red_bins)"
    and outer: "\<forall>oc. name oc \<in> six \<longrightarrow>
          \<not> contains (bins w ! 0) oc \<and> \<not> contains (bins w ! 37) oc"
    by blast
  have six: "name (Outcome ''red'' 1) \<in> six" by (simp add: six_def)
  from inner [rule_format, of 5] have
    "contains (bins w ! 5) (Outcome ''low'' 1) \<and> \<not> contains (bins w ! 5) (Outcome ''high'' 1)
     \<and> contains (bins w ! 5) (Outcome ''odd'' 1) \<and> \<not> contains (bins w ! 5) (Outcome ''even'' 1)
     \<and> contains (bins w ! 5) (Outcome ''red'' 1) \<and> \<not> contains (bins w ! 5) (Outcome ''black'' 1)"
    by (auto simp: red_bins_def)
  with w six outer [rule_format, OF six] show ?thesis by simp
qed

text \<open>
  C5. The selectors \<open>Wheel.__init__\<close> knows are \<open>"american"\<close> and \<open>"european"\<close>. With
  \<open>"default"\<close> or \<open>"prison"\<close> it builds nothing: all 38 bins are empty and no outcome
  is registered.
\<close>

theorem Wheel_init_default_selector_empty:
  "Wheel_init zero_seeded zero_rng None ''default'' =
     Inr \<lparr>bins = replicate 38 [], wrng = zero_rng, all_outcomes = []\<rparr>
   \<and> Wheel_init zero_seeded zero_rng None ''prison'' =
     Inr \<lparr>bins = replicate 38 [], wrng = zero_rng, all_outcomes = []\<rparr>"
  by (simp add: Wheel_init_def truthy_def)

text \<open>
  C5 as the code has it. \<open>"american"\<close> gives the wheel \<open>BinBuilder\<close> builds and
  \<open>"european"\<close> the wheel \<open>EuroBinBuilder\<close> builds: the construction returns a wheel of
  38 bins, none of them empty, each holding the name of its straight bet; the american
  wheel registers no PrisonOutcome, the european wheel has the PrisonOutcome \<open>"0"\<close> in
  bin 0. Every other selector gives 38 empty bins and no registered outcome, without an
  exception.
\<close>

theorem Wheel_init_selector:
  "(rules = ''american'' \<or> rules = ''european'' \<longrightarrow>
      (\<exists>w. Wheel_init seeded fresh seed rules = Inr w
         \<and> Wheel_init seeded fresh seed rules =
             build_bins (if rules = ''american'' then BinBuilder else EuroBinBuilder)
               (empty_wheel (if truthy seed then seeded (the seed) else fresh))
         \<and> length (bins w) = 38 \<and> (\<forall>i < 38. bins w ! i \<noteq> []) \<and> straight_names w
         \<and> (rules = ''american'' \<longrightarrow> (\<forall>oc \<in> set (all_outcomes w). \<not> is_prison oc))
         \<and> (rules = ''european'' \<longrightarrow> PrisonOutcome ''0'' 35 \<in> set (bins w ! 0))))
   \<and> (rules \<noteq> ''american'' \<and> rules \<noteq> ''european'' \<longrightarrow>
        Wheel_init seeded fresh seed rules =
          Inr \<lparr>bins = replicate 38 [],
               wrng = (if truthy seed then seeded (the seed) else fresh),
               all_outcomes = []\<rparr>)"
proof (intro conjI impI)
  assume r: "rules = ''american'' \<or> rules = ''european''"
  from built_wheel [OF r, of seeded fresh seed]
  obtain w where w: "Wheel_init seeded fresh seed rules = Inr w" "length (bins w) = 38"
    "straight_names w" "rules = ''american'' \<longrightarrow> (\<forall>oc \<in> set (all_outcomes w). plain oc)"
    "rules = ''european'' \<longrightarrow> PrisonOutcome ''0'' 35 \<in> set (bins w ! 0)" by blast
  have d: "Wheel_init seeded fresh seed rules =
             build_bins (if rules = ''american'' then BinBuilder else EuroBinBuilder)
               (empty_wheel (if truthy seed then seeded (the seed) else fresh))"
    using r by (auto simp: Wheel_init_unfold)
  from w(3) have "\<forall>i < 38. bins w ! i \<noteq> []" by (simp add: straight_names_nonempty)
  with w d show "\<exists>w. Wheel_init seeded fresh seed rules = Inr w
         \<and> Wheel_init seeded fresh seed rules =
             build_bins (if rules = ''american'' then BinBuilder else EuroBinBuilder)
               (empty_wheel (if truthy seed then seeded (the seed) else fresh))
         \<and> length (bins w) = 38 \<and> (\<forall>i < 38. bins w ! i \<noteq> []) \<and> straight_names w
         \<and> (rules = ''american'' \<longrightarrow> (\<forall>oc \<in> set (all_outcomes w). \<not> is_prison oc))
         \<and> (rules = ''european'' \<longrightarrow> PrisonOutcome ''0'' 35 \<in> set (bins w ! 0))"
    by (auto simp: plain_def)
next
  assume "rules \<noteq> ''american'' \<and> rules \<noteq> ''european''"
  then show "Wheel_init seeded fresh seed rules =
          Inr \<lparr>bins = replicate 38 [],
               wrng = (if truthy seed then seeded (the seed) else fresh),
               all_outcomes = []\<rparr>"
    by (simp add: Wheel_init_other empty_wheel_def)
qed

theorem Wheel_init_selector_witness:
  "(\<exists>w. Wheel_init zero_seeded zero_rng None ''european'' = Inr w
       \<and> length (bins w) = 38 \<and> bins w ! 0 \<noteq> []
       \<and> PrisonOutcome ''0'' 35 \<in> set (bins w ! 0))
   \<and> (\<exists>w. Wheel_init zero_seeded zero_rng None ''american'' = Inr w
       \<and> length (bins w) = 38 \<and> bins w ! 0 \<noteq> []
       \<and> (\<forall>oc \<in> set (all_outcomes w). \<not> is_prison oc))
   \<and> Wheel_init zero_seeded zero_rng None ''french'' =
        Inr \<lparr>bins = replicate 38 [], wrng = zero_rng, all_outcomes = []\<rparr>"
proof -
  have e: "''european'' = ''american'' \<or> ''european'' = ''european''" by simp
  have a: "''american'' = ''american'' \<or> ''american'' = ''european''" by simp
  have f: "''french'' \<noteq> ''american'' \<and> ''french'' \<noteq> ''european''" by simp
  from Wheel_init_selector [of "''european''" zero_seeded zero_rng None,
      THEN conjunct1, rule_format, OF e]
  have 1: "\<exists>w. Wheel_init zero_seeded zero_rng None ''european'' = Inr w
       \<and> length (bins w) = 38 \<and> bins w ! 0 \<noteq> []
       \<and> PrisonOutcome ''0'' 35 \<in> set (bins w ! 0)" by auto
  from Wheel_init_selector [of "''american''" zero_seeded zero_rng None,
      THEN conjunct1, rule_format, OF a]
  have 2: "\<exists>w. Wheel_init zero_seeded zero_rng None ''american'' = Inr w
       \<and> length (bins w) = 38 \<and> bins w ! 0 \<noteq> []
       \<and> (\<forall>oc \<in> set (all_outcomes w). \<not> is_prison oc)" by auto
  from Wheel_init_selector [of "''french''" zero_seeded zero_rng None,
      THEN conjunct2, rule_format, OF f]
  have 3: "Wheel_init zero_seeded zero_rng None ''french'' =
        Inr \<lparr>bins = replicate 38 [], wrng = zero_rng, all_outcomes = []\<rparr>"
    by (simp add: truthy_def)
  from 1 2 3 show ?thesis by blast
qed

text \<open>
  C8. Two wheels built with the same seed and rules are claimed to draw the same bins.
  \<open>if seed:\<close> is false for the seed 0, so the generator of \<open>Wheel(seed=0)\<close> is left in
  the state \<open>random.Random()\<close> took from the operating system, as with no seed at all, and
  the first winning bin is the one that state selects. Two american wheels built with
  seed 0 whose generators start from different states (one draws 0 first, the other 1)
  differ in their first winning bin: red is not in the first, and is in the second.
\<close>

theorem Wheel_seed_zero_unseeded:
  "(\<exists>w. Wheel_init seeded fresh (Some 0) rules = Inr w \<and> wrng w = fresh
       \<and> fst (wheel_next w) = Inr (bins w ! (draws fresh (pos fresh) mod 38)))
   \<and> Wheel_init seeded fresh (Some 0) rules = Wheel_init seeded fresh None rules
   \<and> (\<exists>w1 w2 b1 b2.
         Wheel_init zero_seeded zero_rng (Some 0) ''american'' = Inr w1
       \<and> Wheel_init zero_seeded one_rng (Some 0) ''american'' = Inr w2
       \<and> fst (wheel_next w1) = Inr b1 \<and> fst (wheel_next w2) = Inr b2
       \<and> \<not> contains b1 (Outcome ''red'' 1) \<and> contains b2 (Outcome ''red'' 1))"
proof -
  have t: "\<not> truthy (Some 0)" by (simp add: truthy_def)
  from Wheel_init_any [of seeded fresh "Some 0" rules] t
  obtain w where w: "Wheel_init seeded fresh (Some 0) rules = Inr w" "length (bins w) = 38"
    "wrng w = fresh" by auto
  from wheel_next_first [OF w(2)] w(3)
  have "fst (wheel_next w) = Inr (bins w ! (draws fresh (pos fresh) mod 38))" by simp
  with w have 1: "\<exists>w. Wheel_init seeded fresh (Some 0) rules = Inr w \<and> wrng w = fresh
       \<and> fst (wheel_next w) = Inr (bins w ! (draws fresh (pos fresh) mod 38))" by blast
  have 2: "Wheel_init seeded fresh (Some 0) rules = Wheel_init seeded fresh None rules"
    by (simp add: Wheel_init_unfold truthy_def)
  have am: "''american'' = ''american'' \<or> ''american'' = ''european''" by simp
  from built_wheel [OF am, of zero_seeded zero_rng "Some 0"] t
  obtain w1 where w1: "Wheel_init zero_seeded zero_rng (Some 0) ''american'' = Inr w1"
    "length (bins w1) = 38" "wrng w1 = zero_rng"
    "\<forall>i < 38. names_at w1 i \<inter> six = even_money_names i" by auto
  from built_wheel [OF am, of zero_seeded one_rng "Some 0"] t
  obtain w2 where w2: "Wheel_init zero_seeded one_rng (Some 0) ''american'' = Inr w2"
    "length (bins w2) = 38" "wrng w2 = one_rng"
    "\<forall>i < 38. names_at w2 i \<inter> six = even_money_names i" by auto
  have b1: "fst (wheel_next w1) = Inr (bins w1 ! 0)"
    using wheel_next_first [OF w1(2)] w1(3) by (simp add: zero_rng_def)
  have b2: "fst (wheel_next w2) = Inr (bins w2 ! 1)"
    using wheel_next_first [OF w2(2)] w2(3) by (simp add: one_rng_def)
  have r: "''red'' \<in> six" by (simp add: six_def)
  have n1: "\<not> contains (bins w1 ! 0) (Outcome ''red'' 1)"
    using six_member [OF _ r, of w1 0 1] w1(4) by (simp add: even_money_names_def)
  have n2: "contains (bins w2 ! 1) (Outcome ''red'' 1)"
    using six_member [OF _ r, of w2 1 1] w2(4) by (simp add: even_money_names_def red_bins_def)
  from w1(1) w2(1) b1 b2 n1 n2 have 3: "\<exists>w1 w2 b1 b2.
         Wheel_init zero_seeded zero_rng (Some 0) ''american'' = Inr w1
       \<and> Wheel_init zero_seeded one_rng (Some 0) ''american'' = Inr w2
       \<and> fst (wheel_next w1) = Inr b1 \<and> fst (wheel_next w2) = Inr b2
       \<and> \<not> contains b1 (Outcome ''red'' 1) \<and> contains b2 (Outcome ''red'' 1)" by blast
  from 1 2 3 show ?thesis by blast
qed

section \<open>Sessions\<close>

text \<open>
  C1. Every session is claimed to end, and \<open>gather\<close> on Passenger57 with the default
  configuration to record 50 durations and 50 maxima. \<open>Passenger57.playing\<close> returns
  True whatever the rounds and the stake are, so the loop of its first session never
  stops: on the default wheel, with a table limit of 1000, \<open>gather\<close> does not return.
\<close>

theorem Passenger57_gather_never_returns:
  "gather zero_fresh
     (Simulator_init (Table_init 1000 default_wheel)
        (Player_init zero_rng (Table_init 1000 default_wheel) (blank Passenger57))) = None"
proof -
  let ?t = "Table_init 1000 default_wheel"
  let ?sim = "Simulator_init ?t (Player_init zero_rng ?t (blank Passenger57))"
  have "kind (sim_player ?sim) = Passenger57"
    by (simp add: Simulator_init_def Player_init_def blank_def Let_def)
  moreover have "bets (sim_table ?sim) = []" "10 \<le> limit (sim_table ?sim)"
    by (simp_all add: Simulator_init_def Table_init_def)
  moreover have "length (bins (wheel (sim_table ?sim))) = 38"
    "black_plain (wheel (sim_table ?sim))"
    using default_wheel_props by (simp_all add: Simulator_init_def Table_init_def)
  moreover have "0 < samples ?sim" by (simp add: Simulator_init_def)
  ultimately show ?thesis by (rule Passenger57_gather_None)
qed

text \<open>
  C1 as the code has it. For every strategy but Passenger57 the loop of a session ends,
  by returning or by an exception of a round, and when it returns it has played at most
  as many rounds as the player had left: a player who is playing has a positive number
  of rounds and every round takes one. For Martingale and SevenReds, on a cleared table
  of a 38-bin wheel whose black is no PrisonOutcome, no round raises, and \<open>gather\<close>
  returns with one duration per sample, each at most the round cap, and one maximum per
  sample, each at least the starting stake. For Passenger57, whose \<open>playing\<close> is always
  True, on a cleared table with a limit of at least 10 the loop never ends, and neither
  does \<open>gather\<close> when it has a sample to run.
\<close>

theorem sessions_end_except_Passenger57:
  "(kind p \<noteq> Passenger57 \<longrightarrow>
      (\<exists>y. session_loop t p stakes d = Some y)
    \<and> (\<forall>sts d' t' p'. session_loop t p stakes d = Some (Inr (sts, d'), t', p')
          \<longrightarrow> d' \<le> d + rounds_left p))
   \<and> ((kind (sim_player sim) = Martingale \<or> kind (sim_player sim) = SevenReds)
      \<and> bets (sim_table sim) = [] \<and> length (bins (wheel (sim_table sim))) = 38
      \<and> black_plain (wheel (sim_table sim)) \<longrightarrow>
      (\<exists>sim' ds ms. gather fresh sim = Some (Inr (), sim')
         \<and> durations sim' = durations sim @ ds \<and> length ds = samples sim
         \<and> (\<forall>x \<in> set ds. x \<le> nat (init_duration sim))
         \<and> maxima sim' = maxima sim @ ms \<and> length ms = samples sim
         \<and> (\<forall>m \<in> set ms. \<exists>v. m = Some v \<and> init_stake sim \<le> v)))
   \<and> (kind p = Passenger57 \<and> bets t = [] \<and> 10 \<le> limit t \<and> length (bins (wheel t)) = 38
      \<and> stake p \<noteq> None \<and> (\<forall>oc. black p = Some oc \<longrightarrow> \<not> is_prison oc) \<longrightarrow>
      session_loop t p stakes d = None)
   \<and> (kind (sim_player sim) = Passenger57 \<and> bets (sim_table sim) = []
      \<and> 10 \<le> limit (sim_table sim) \<and> length (bins (wheel (sim_table sim))) = 38
      \<and> black_plain (wheel (sim_table sim)) \<and> 0 < samples sim \<longrightarrow>
      gather fresh sim = None)"
proof (intro conjI impI)
  assume "kind p \<noteq> Passenger57"
  then show "\<exists>y. session_loop t p stakes d = Some y" by (rule session_loop_terminates)
next
  assume "kind p \<noteq> Passenger57"
  then show "\<forall>sts d' t' p'. session_loop t p stakes d = Some (Inr (sts, d'), t', p')
          \<longrightarrow> d' \<le> d + rounds_left p"
    using session_loop_rounds by blast
next
  assume "(kind (sim_player sim) = Martingale \<or> kind (sim_player sim) = SevenReds)
      \<and> bets (sim_table sim) = [] \<and> length (bins (wheel (sim_table sim))) = 38
      \<and> black_plain (wheel (sim_table sim))"
  then have "Mart_ready sim" by (simp add: Mart_ready_def)
  from Martingale_gather_loop [OF this, of fresh 0 "samples sim"]
  show "\<exists>sim' ds ms. gather fresh sim = Some (Inr (), sim')
         \<and> durations sim' = durations sim @ ds \<and> length ds = samples sim
         \<and> (\<forall>x \<in> set ds. x \<le> nat (init_duration sim))
         \<and> maxima sim' = maxima sim @ ms \<and> length ms = samples sim
         \<and> (\<forall>m \<in> set ms. \<exists>v. m = Some v \<and> init_stake sim \<le> v)"
    by (simp add: gather_def)
next
  assume "kind p = Passenger57 \<and> bets t = [] \<and> 10 \<le> limit t \<and> length (bins (wheel t)) = 38
      \<and> stake p \<noteq> None \<and> (\<forall>oc. black p = Some oc \<longrightarrow> \<not> is_prison oc)"
  then have "P57_inv t p" by (simp add: P57_inv_def plain_def)
  then show "session_loop t p stakes d = None" by (rule Passenger57_loop_None)
next
  assume "kind (sim_player sim) = Passenger57 \<and> bets (sim_table sim) = []
      \<and> 10 \<le> limit (sim_table sim) \<and> length (bins (wheel (sim_table sim))) = 38
      \<and> black_plain (wheel (sim_table sim)) \<and> 0 < samples sim"
  then show "gather fresh sim = None" by (simp add: Passenger57_gather_None)
qed


theorem sessions_end_except_Passenger57_witness:
  "(let t = Table_init 1000 default_wheel;
        q = set_stake 100 (set_rounds 250 (Player_init zero_rng t (blank PlayerRandom)));
        p = set_stake 100 (set_rounds 250 (Player_init zero_rng t (blank Passenger57)));
        m = Simulator_init t (Player_init zero_rng t (blank Martingale));
        f = Simulator_init t (Player_init zero_rng t (blank Passenger57))
    in kind q \<noteq> Passenger57 \<and> (\<exists>y. session_loop t q [Some 100] 0 = Some y)
       \<and> kind (sim_player m) = Martingale \<and> bets (sim_table m) = []
       \<and> length (bins (wheel (sim_table m))) = 38 \<and> black_plain (wheel (sim_table m))
       \<and> (\<exists>sim'. gather zero_fresh m = Some (Inr (), sim')
             \<and> length (durations sim') = 50 \<and> (\<forall>x \<in> set (durations sim'). x \<le> 250)
             \<and> length (maxima sim') = 50
             \<and> (\<forall>x \<in> set (maxima sim'). \<exists>v. x = Some v \<and> 100 \<le> v))
       \<and> kind p = Passenger57 \<and> bets t = [] \<and> 10 \<le> limit t \<and> stake p \<noteq> None
       \<and> session_loop t p [Some 100] 0 = None
       \<and> kind (sim_player f) = Passenger57 \<and> 0 < samples f
       \<and> gather zero_fresh f = None)"
proof -
  define t where "t = Table_init 1000 default_wheel"
  define q where "q = set_stake 100 (set_rounds 250 (Player_init zero_rng t (blank PlayerRandom)))"
  define p where "p = set_stake 100 (set_rounds 250 (Player_init zero_rng t (blank Passenger57)))"
  define m where "m = Simulator_init t (Player_init zero_rng t (blank Martingale))"
  define f where "f = Simulator_init t (Player_init zero_rng t (blank Passenger57))"
  have t: "bets t = []" "10 \<le> limit t" "length (bins (wheel t)) = 38" "black_plain (wheel t)"
    using default_wheel_props by (simp_all add: t_def Table_init_def)
  have kq: "kind q \<noteq> Passenger57"
    by (simp add: q_def set_stake_def set_rounds_def Player_init_def blank_def Let_def)
  have kp: "kind p = Passenger57" "stake p \<noteq> None"
    by (simp_all add: p_def set_stake_def set_rounds_def Player_init_def blank_def Let_def)
  have bp: "black p = get_outcome (wheel t) ''black''"
    by (simp add: p_def set_stake_def set_rounds_def Player_init_def blank_def Let_def)
  with t(4) have pp: "\<forall>oc. black p = Some oc \<longrightarrow> \<not> is_prison oc"
    by (simp add: black_plain_def plain_def)
  have m: "kind (sim_player m) = Martingale" "sim_table m = t" "samples m = 50"
    "init_duration m = 250" "init_stake m = 100" "durations m = []" "maxima m = []"
    by (simp_all add: m_def Simulator_init_def Player_init_def blank_def Let_def)
  have f: "kind (sim_player f) = Passenger57" "sim_table f = t" "samples f = 50"
    by (simp_all add: f_def Simulator_init_def Player_init_def blank_def Let_def)
  note th1 = sessions_end_except_Passenger57 [of q t "[Some 100]" 0 m zero_fresh]
  note th2 = sessions_end_except_Passenger57 [of p t "[Some 100]" 0 f zero_fresh]
  from th1 kq have 1: "\<exists>y. session_loop t q [Some 100] 0 = Some y" by blast
  from th1 m t have "\<exists>sim' ds ms. gather zero_fresh m = Some (Inr (), sim')
         \<and> durations sim' = durations m @ ds \<and> length ds = samples m
         \<and> (\<forall>x \<in> set ds. x \<le> nat (init_duration m))
         \<and> maxima sim' = maxima m @ ms \<and> length ms = samples m
         \<and> (\<forall>m' \<in> set ms. \<exists>v. m' = Some v \<and> init_stake m \<le> v)" by simp
  with m have 2: "\<exists>sim'. gather zero_fresh m = Some (Inr (), sim')
             \<and> length (durations sim') = 50 \<and> (\<forall>x \<in> set (durations sim'). x \<le> 250)
             \<and> length (maxima sim') = 50
             \<and> (\<forall>x \<in> set (maxima sim'). \<exists>v. x = Some v \<and> 100 \<le> v)" by auto
  from th2 kp t pp have 3: "session_loop t p [Some 100] 0 = None" by blast
  from th2 f t have 4: "gather zero_fresh f = None" by simp
  from kq 1 m(1,2) t 2 kp 3 f(1,3) 4 show ?thesis
    unfolding Let_def t_def [symmetric] q_def [symmetric] p_def [symmetric]
      m_def [symmetric] f_def [symmetric]
    by simp
qed

end
